theory Spec2Isabelle
  imports Main
begin

section \<open>Syntax nodes of go/ast\<close>

text \<open>
  \<^verbatim>\<open>marshalAST\<close> receives an \<^verbatim>\<open>ast.Node\<close>: an interface value holding a pointer to one
  of the struct types of go/ast. A pointer is an address of type \<open>'a\<close> (the node's
  identity, the key of the \<^verbatim>\<open>visited\<close> map); \<open>None\<close> is \<^verbatim>\<open>nil\<close>. The heap maps every
  address to the struct stored there. Of each struct only the fields that \<^verbatim>\<open>marshalAST\<close>
  or \<^verbatim>\<open>ast.Walk\<close> read are kept, in the order of their declaration in go/ast; positions
  and tokens are dropped. The constructors are grouped as go/ast groups them
  (expressions, types, statements, declarations).

  \<open>None\<close> is the nil interface value, and also the nil pointer in a field of pointer
  type: the switch guards every such field with \<^verbatim>\<open>!= nil\<close>, and \<^verbatim>\<open>ast.Walk\<close> panics on
  either nil where it has no guard. Slices of struct pointers (\<^verbatim>\<open>Names\<close>, the
  \<^verbatim>\<open>List\<close> of a field list or of a comment group) are taken to hold no nil pointer, as
  in every tree the parser builds. Addresses are untyped: Go's types restrict which
  struct a field may point to, the heap does not.
\<close>

datatype 'a expr =
    BadExpr
  | Ident string                                         \<comment> \<open>Name\<close>
  | Ellipsis "'a option"                                 \<comment> \<open>Elt\<close>
  | BasicLit string                                      \<comment> \<open>Value\<close>
  | FuncLit "'a option" "'a option"                      \<comment> \<open>Type, Body\<close>
  | CompositeLit "'a option" "'a option list"            \<comment> \<open>Type, Elts\<close>
  | ParenExpr "'a option"                                \<comment> \<open>X\<close>
  | SelectorExpr "'a option" "'a option"                 \<comment> \<open>X, Sel\<close>
  | IndexExpr "'a option" "'a option"                    \<comment> \<open>X, Index\<close>
  | IndexListExpr "'a option" "'a option list"           \<comment> \<open>X, Indices\<close>
  | SliceExpr "'a option" "'a option" "'a option" "'a option"  \<comment> \<open>X, Low, High, Max\<close>
  | TypeAssertExpr "'a option" "'a option"               \<comment> \<open>X, Type\<close>
  | CallExpr "'a option" "'a option list"                \<comment> \<open>Fun, Args\<close>
  | StarExpr "'a option"                                 \<comment> \<open>X\<close>
  | UnaryExpr "'a option"                                \<comment> \<open>X\<close>
  | BinaryExpr "'a option" "'a option"                   \<comment> \<open>X, Y\<close>
  | KeyValueExpr "'a option" "'a option"                 \<comment> \<open>Key, Value\<close>

datatype 'a type_expr =
    ArrayType "'a option" "'a option"                    \<comment> \<open>Len, Elt\<close>
  | StructType "'a option"                               \<comment> \<open>Fields\<close>
  | FuncType "'a option" "'a option" "'a option"         \<comment> \<open>TypeParams, Params, Results\<close>
  | InterfaceType "'a option"                            \<comment> \<open>Methods\<close>
  | MapType "'a option" "'a option"                      \<comment> \<open>Key, Value\<close>
  | ChanType "'a option"                                 \<comment> \<open>Value\<close>

datatype 'a stmt =
    BadStmt
  | DeclStmt "'a option"                                 \<comment> \<open>Decl\<close>
  | EmptyStmt
  | LabeledStmt "'a option" "'a option"                  \<comment> \<open>Label, Stmt\<close>
  | ExprStmt "'a option"                                 \<comment> \<open>X\<close>
  | SendStmt "'a option" "'a option"                     \<comment> \<open>Chan, Value\<close>
  | IncDecStmt "'a option"                               \<comment> \<open>X\<close>
  | AssignStmt "'a option list" "'a option list"         \<comment> \<open>Lhs, Rhs\<close>
  | GoStmt "'a option"                                   \<comment> \<open>Call\<close>
  | DeferStmt "'a option"                                \<comment> \<open>Call\<close>
  | ReturnStmt "'a option list"                          \<comment> \<open>Results\<close>
  | BranchStmt "'a option"                               \<comment> \<open>Label\<close>
  | BlockStmt "'a option list"                           \<comment> \<open>List\<close>
  | IfStmt "'a option" "'a option" "'a option" "'a option"     \<comment> \<open>Init, Cond, Body, Else\<close>
  | CaseClause "'a option list" "'a option list"         \<comment> \<open>List, Body\<close>
  | SwitchStmt "'a option" "'a option" "'a option"       \<comment> \<open>Init, Tag, Body\<close>
  | TypeSwitchStmt "'a option" "'a option" "'a option"   \<comment> \<open>Init, Assign, Body\<close>
  | CommClause "'a option" "'a option list"              \<comment> \<open>Comm, Body\<close>
  | SelectStmt "'a option"                               \<comment> \<open>Body\<close>
  | ForStmt "'a option" "'a option" "'a option" "'a option"    \<comment> \<open>Init, Cond, Post, Body\<close>
  | RangeStmt "'a option" "'a option" "'a option" "'a option"  \<comment> \<open>Key, Value, X, Body\<close>

datatype 'a decl =
    ImportSpec "'a option" "'a option" "'a option" "'a option"
      \<comment> \<open>Doc, Name, Path, Comment\<close>
  | ValueSpec "'a option" "'a option list" "'a option" "'a option list" "'a option"
      \<comment> \<open>Doc, Names, Type, Values, Comment\<close>
  | TypeSpec "'a option" "'a option" "'a option" "'a option" "'a option"
      \<comment> \<open>Doc, Name, TypeParams, Type, Comment\<close>
  | BadDecl
  | GenDecl "'a option" "'a option list"                 \<comment> \<open>Doc, Specs\<close>
  | FuncDecl "'a option" "'a option" "'a option" "'a option" "'a option"
      \<comment> \<open>Doc, Recv, Name, Type, Body\<close>

datatype 'a node =
    Comment string                                       \<comment> \<open>Text\<close>
  | CommentGroup "'a option list"                        \<comment> \<open>List\<close>
  | FieldNode "'a option" "'a option list" "'a option" "'a option" "'a option"
      \<comment> \<open>\<^verbatim>\<open>ast.Field\<close>: Doc, Names, Type, Tag, Comment\<close>
  | FieldList "'a option list"                           \<comment> \<open>List\<close>
  | Expr "'a expr"
  | TypeExpr "'a type_expr"
  | Stmt "'a stmt"
  | Decl "'a decl"
  | File "'a option" "'a option" "'a option list"        \<comment> \<open>Doc, Name, Decls\<close>
  | Package "'a option list"
      \<comment> \<open>\<^verbatim>\<open>ast.Package\<close>: the values of Files, in the order one iteration yields them\<close>

type_synonym 'a heap = "'a \<Rightarrow> 'a node"

section \<open>The output record\<close>

text \<open>
  \<^verbatim>\<open>type ASTNode struct { Name string; Type string; Children []*ASTNode;
  Value interface{}; Comments []string }\<close>. \<^verbatim>\<open>Value\<close> is only ever \<^verbatim>\<open>nil\<close> or a
  string. Every \<^verbatim>\<open>*ASTNode\<close> is freshly allocated and never shared, so children are
  held by value; a \<^verbatim>\<open>nil\<close> slice is the empty list.
\<close>

datatype ASTNode =
  ASTNode (Name: string) (Type: string) (Children: "ASTNode list")
    (Value: "string option") (Comments: "string list")

section \<open>Outcomes of a call\<close>

text \<open>
  A call returns, panics, or exhausts the call stack. The fuel of the model bounds the
  depth of nested calls: every call of \<^verbatim>\<open>marshalAST\<close> and of \<^verbatim>\<open>ast.Walk\<close> passes one less
  to the calls it makes. A run that returns does so for every larger fuel; a run that
  is \<open>OutOfFuel\<close> for every fuel nests calls without bound and does not terminate.
\<close>

datatype panic =
    UnsupportedNodeKind string   \<comment> \<open>\<^verbatim>\<open>panic("unsupported AST node type: %T")\<close>, with the type's name\<close>
  | NilPointer                   \<comment> \<open>a nil pointer dereference, or \<^verbatim>\<open>ast.Walk\<close> on nil\<close>

datatype 'r outcome = Returns 'r | Panics panic | OutOfFuel

definition bind :: "'r outcome \<Rightarrow> ('r \<Rightarrow> 'q outcome) \<Rightarrow> 'q outcome" where
  "bind m g = (case m of Returns x \<Rightarrow> g x | Panics e \<Rightarrow> Panics e | OutOfFuel \<Rightarrow> OutOfFuel)"

text \<open>\<^verbatim>\<open>for _, x := range xs { ... }\<close> over a body that may panic.\<close>

primrec for_each :: "('x \<Rightarrow> 's \<Rightarrow> 's outcome) \<Rightarrow> 'x list \<Rightarrow> 's \<Rightarrow> 's outcome" where
  "for_each g [] s = Returns s"
| "for_each g (x # xs) s = bind (g x s) (for_each g xs)"

text \<open>\<^verbatim>\<open>if x != nil { ... x ... }\<close>: the guarded use of an optional field.\<close>

definition opt :: "'a option \<Rightarrow> 'a option list" where
  "opt r = (case r of None \<Rightarrow> [] | Some a \<Rightarrow> [Some a])"

section \<open>The type switch of marshalAST\<close>

text \<open>\<^verbatim>\<open>fmt.Sprintf("%T", node)\<close>: the name of the node's dynamic type.\<close>

primrec expr_type_name :: "'a expr \<Rightarrow> string" where
  "expr_type_name BadExpr = ''*ast.BadExpr''"
| "expr_type_name (Ident s) = ''*ast.Ident''"
| "expr_type_name (Ellipsis elt) = ''*ast.Ellipsis''"
| "expr_type_name (BasicLit s) = ''*ast.BasicLit''"
| "expr_type_name (FuncLit ty body) = ''*ast.FuncLit''"
| "expr_type_name (CompositeLit ty elts) = ''*ast.CompositeLit''"
| "expr_type_name (ParenExpr x) = ''*ast.ParenExpr''"
| "expr_type_name (SelectorExpr x sel) = ''*ast.SelectorExpr''"
| "expr_type_name (IndexExpr x i) = ''*ast.IndexExpr''"
| "expr_type_name (IndexListExpr x ixs) = ''*ast.IndexListExpr''"
| "expr_type_name (SliceExpr x lo hi mx) = ''*ast.SliceExpr''"
| "expr_type_name (TypeAssertExpr x ty) = ''*ast.TypeAssertExpr''"
| "expr_type_name (CallExpr fn args) = ''*ast.CallExpr''"
| "expr_type_name (StarExpr x) = ''*ast.StarExpr''"
| "expr_type_name (UnaryExpr x) = ''*ast.UnaryExpr''"
| "expr_type_name (BinaryExpr x y) = ''*ast.BinaryExpr''"
| "expr_type_name (KeyValueExpr k v) = ''*ast.KeyValueExpr''"

primrec type_expr_type_name :: "'a type_expr \<Rightarrow> string" where
  "type_expr_type_name (ArrayType len elt) = ''*ast.ArrayType''"
| "type_expr_type_name (StructType fields) = ''*ast.StructType''"
| "type_expr_type_name (FuncType tparams params results) = ''*ast.FuncType''"
| "type_expr_type_name (InterfaceType methods) = ''*ast.InterfaceType''"
| "type_expr_type_name (MapType k v) = ''*ast.MapType''"
| "type_expr_type_name (ChanType v) = ''*ast.ChanType''"

primrec stmt_type_name :: "'a stmt \<Rightarrow> string" where
  "stmt_type_name BadStmt = ''*ast.BadStmt''"
| "stmt_type_name (DeclStmt d) = ''*ast.DeclStmt''"
| "stmt_type_name EmptyStmt = ''*ast.EmptyStmt''"
| "stmt_type_name (LabeledStmt l s) = ''*ast.LabeledStmt''"
| "stmt_type_name (ExprStmt x) = ''*ast.ExprStmt''"
| "stmt_type_name (SendStmt c v) = ''*ast.SendStmt''"
| "stmt_type_name (IncDecStmt x) = ''*ast.IncDecStmt''"
| "stmt_type_name (AssignStmt lhs rhs) = ''*ast.AssignStmt''"
| "stmt_type_name (GoStmt c) = ''*ast.GoStmt''"
| "stmt_type_name (DeferStmt c) = ''*ast.DeferStmt''"
| "stmt_type_name (ReturnStmt rs) = ''*ast.ReturnStmt''"
| "stmt_type_name (BranchStmt l) = ''*ast.BranchStmt''"
| "stmt_type_name (BlockStmt l) = ''*ast.BlockStmt''"
| "stmt_type_name (IfStmt init cond body els) = ''*ast.IfStmt''"
| "stmt_type_name (CaseClause l body) = ''*ast.CaseClause''"
| "stmt_type_name (SwitchStmt init tag body) = ''*ast.SwitchStmt''"
| "stmt_type_name (TypeSwitchStmt init assign body) = ''*ast.TypeSwitchStmt''"
| "stmt_type_name (CommClause comm body) = ''*ast.CommClause''"
| "stmt_type_name (SelectStmt body) = ''*ast.SelectStmt''"
| "stmt_type_name (ForStmt init cond post body) = ''*ast.ForStmt''"
| "stmt_type_name (RangeStmt k v x body) = ''*ast.RangeStmt''"

primrec decl_type_name :: "'a decl \<Rightarrow> string" where
  "decl_type_name (ImportSpec doc nm path c) = ''*ast.ImportSpec''"
| "decl_type_name (ValueSpec doc names ty vals c) = ''*ast.ValueSpec''"
| "decl_type_name (TypeSpec doc nm tparams ty c) = ''*ast.TypeSpec''"
| "decl_type_name BadDecl = ''*ast.BadDecl''"
| "decl_type_name (GenDecl doc specs) = ''*ast.GenDecl''"
| "decl_type_name (FuncDecl doc recv nm ty body) = ''*ast.FuncDecl''"

primrec type_name :: "'a node \<Rightarrow> string" where
  "type_name (Comment t) = ''*ast.Comment''"
| "type_name (CommentGroup l) = ''*ast.CommentGroup''"
| "type_name (FieldNode doc names ty tag c) = ''*ast.Field''"
| "type_name (FieldList l) = ''*ast.FieldList''"
| "type_name (Expr e) = expr_type_name e"
| "type_name (TypeExpr t) = type_expr_type_name t"
| "type_name (Stmt s) = stmt_type_name s"
| "type_name (Decl d) = decl_type_name d"
| "type_name (File doc nm decls) = ''*ast.File''"
| "type_name (Package files) = ''*ast.Package''"

text \<open>
  The nodes each case of the switch passes to \<^verbatim>\<open>marshalAST\<close>, in the order of the calls.
  A field read under \<^verbatim>\<open>if n.X != nil\<close> is \<open>opt x\<close>; the elements of a slice, and the
  \<^verbatim>\<open>Type\<close> of a \<^verbatim>\<open>TypeSpec\<close>, are passed without a guard.
\<close>

primrec expr_marshal_children :: "'a expr \<Rightarrow> 'a option list" where
  "expr_marshal_children BadExpr = []"
| "expr_marshal_children (Ident s) = []"
| "expr_marshal_children (Ellipsis elt) = opt elt"
| "expr_marshal_children (BasicLit s) = []"
| "expr_marshal_children (FuncLit ty body) = opt ty @ opt body"
| "expr_marshal_children (CompositeLit ty elts) = opt ty @ elts"
| "expr_marshal_children (ParenExpr x) = opt x"
| "expr_marshal_children (SelectorExpr x sel) = opt x @ opt sel"
| "expr_marshal_children (IndexExpr x i) = opt x @ opt i"
| "expr_marshal_children (IndexListExpr x ixs) = opt x @ ixs"
| "expr_marshal_children (SliceExpr x lo hi mx) = opt x @ opt lo @ opt hi @ opt mx"
| "expr_marshal_children (TypeAssertExpr x ty) = opt x @ opt ty"
| "expr_marshal_children (CallExpr fn args) = opt fn @ args"
| "expr_marshal_children (StarExpr x) = opt x"
| "expr_marshal_children (UnaryExpr x) = opt x"
| "expr_marshal_children (BinaryExpr x y) = opt x @ opt y"
| "expr_marshal_children (KeyValueExpr k v) = opt k @ opt v"

primrec type_expr_marshal_children :: "'a type_expr \<Rightarrow> 'a option list" where
  "type_expr_marshal_children (ArrayType len elt) = opt elt"
| "type_expr_marshal_children (StructType fields) = opt fields"
| "type_expr_marshal_children (FuncType tparams params results) = opt params @ opt results"
| "type_expr_marshal_children (InterfaceType methods) = opt methods"
| "type_expr_marshal_children (MapType k v) = opt k @ opt v"
| "type_expr_marshal_children (ChanType v) = opt v"

primrec stmt_marshal_children :: "'a stmt \<Rightarrow> 'a option list" where
  "stmt_marshal_children BadStmt = []"
| "stmt_marshal_children (DeclStmt d) = opt d"
| "stmt_marshal_children EmptyStmt = []"
| "stmt_marshal_children (LabeledStmt l s) = opt l @ opt s"
| "stmt_marshal_children (ExprStmt x) = opt x"
| "stmt_marshal_children (SendStmt c v) = opt c @ opt v"
| "stmt_marshal_children (IncDecStmt x) = opt x"
| "stmt_marshal_children (AssignStmt lhs rhs) = lhs @ rhs"
| "stmt_marshal_children (GoStmt c) = opt c"
| "stmt_marshal_children (DeferStmt c) = opt c"
| "stmt_marshal_children (ReturnStmt rs) = rs"
| "stmt_marshal_children (BranchStmt l) = opt l"
| "stmt_marshal_children (BlockStmt l) = l"
| "stmt_marshal_children (IfStmt init cond body els) = opt init @ opt cond @ opt body @ opt els"
| "stmt_marshal_children (CaseClause l body) = l @ body"
| "stmt_marshal_children (SwitchStmt init tag body) = opt init @ opt tag @ opt body"
| "stmt_marshal_children (TypeSwitchStmt init assign body) = opt init @ opt assign @ opt body"
| "stmt_marshal_children (CommClause comm body) = opt comm @ body"
| "stmt_marshal_children (SelectStmt body) = opt body"
| "stmt_marshal_children (ForStmt init cond post body) = opt init @ opt cond @ opt post @ opt body"
| "stmt_marshal_children (RangeStmt k v x body) = opt k @ opt v @ opt x @ opt body"

primrec decl_marshal_children :: "'a decl \<Rightarrow> 'a option list" where
  "decl_marshal_children (ImportSpec doc nm path c) = opt nm @ opt path"
| "decl_marshal_children (ValueSpec doc names ty vals c) = names @ opt ty @ vals"
| "decl_marshal_children (TypeSpec doc nm tparams ty c) = [ty]"
| "decl_marshal_children BadDecl = []"
| "decl_marshal_children (GenDecl doc specs) = specs"
| "decl_marshal_children (FuncDecl doc recv nm ty body) = opt recv @ opt ty @ opt body"

primrec marshal_children :: "'a node \<Rightarrow> 'a option list" where
  "marshal_children (Comment t) = []"
| "marshal_children (CommentGroup l) = l"
| "marshal_children (FieldNode doc names ty tag c) = names @ opt ty"
| "marshal_children (FieldList l) = l"
| "marshal_children (Expr e) = expr_marshal_children e"
| "marshal_children (TypeExpr t) = type_expr_marshal_children t"
| "marshal_children (Stmt s) = stmt_marshal_children s"
| "marshal_children (Decl d) = decl_marshal_children d"
| "marshal_children (File doc nm decls) = []"
| "marshal_children (Package files) = []"

text \<open>
  \<^verbatim>\<open>n.Name.Name\<close>: the text of the identifier a \<^verbatim>\<open>*ast.Ident\<close> field points to. A nil
  pointer panics. Go's types make the pointee an \<^verbatim>\<open>Ident\<close>; an address that holds
  another struct has no counterpart in Go and is treated like nil.
\<close>

definition ident_name :: "'a heap \<Rightarrow> 'a option \<Rightarrow> string outcome" where
  "ident_name h r =
     (case r of
        None \<Rightarrow> Panics NilPointer
      | Some a \<Rightarrow> (case h a of Expr (Ident s) \<Rightarrow> Returns s | _ \<Rightarrow> Panics NilPointer))"

text \<open>
  What the switch assigns to \<^verbatim>\<open>Name\<close>, \<^verbatim>\<open>Value\<close> and \<^verbatim>\<open>Comments\<close> (each case assigns
  them before its first recursive call), and the \<^verbatim>\<open>default\<close> case, which panics. Every
  struct type of go/ast has a case except \<^verbatim>\<open>*ast.Package\<close>, whose case is commented out.
\<close>

definition switch_fields :: "'a heap \<Rightarrow> 'a node \<Rightarrow> (string \<times> string option \<times> string list) outcome" where
  "switch_fields h n =
     (case n of
        Expr e \<Rightarrow>
          (case e of
             Ident s \<Rightarrow> Returns ([], Some s, [])
           | BasicLit s \<Rightarrow> Returns ([], Some s, [])
           | _ \<Rightarrow> Returns ([], None, []))
      | File doc nm decls \<Rightarrow> bind (ident_name h nm) (\<lambda>s. Returns ([], Some s, []))
      | Decl d \<Rightarrow>
          (case d of
             FuncDecl doc recv nm ty body \<Rightarrow> bind (ident_name h nm) (\<lambda>s. Returns (s, None, []))
           | TypeSpec doc nm tparams ty c \<Rightarrow> bind (ident_name h nm) (\<lambda>s. Returns (s, None, []))
           | _ \<Rightarrow> Returns ([], None, []))
      | Comment t \<Rightarrow> Returns ([], None, [t])
      | Package files \<Rightarrow> Panics (UnsupportedNodeKind (type_name n))
      | _ \<Rightarrow> Returns ([], None, []))"

section \<open>ast.Inspect\<close>

text \<open>
  The children \<^verbatim>\<open>ast.Walk\<close> (go/ast/walk.go, behind \<^verbatim>\<open>ast.Inspect\<close>) descends into, in its
  order. A field walked under \<^verbatim>\<open>if n.X != nil\<close> is \<open>opt x\<close>; the others are walked
  unconditionally. \<^verbatim>\<open>File.Comments\<close>, \<^verbatim>\<open>File.Imports\<close> and \<^verbatim>\<open>File.Unresolved\<close> are not
  walked.
\<close>

primrec expr_walk_children :: "'a expr \<Rightarrow> 'a option list" where
  "expr_walk_children BadExpr = []"
| "expr_walk_children (Ident s) = []"
| "expr_walk_children (Ellipsis elt) = opt elt"
| "expr_walk_children (BasicLit s) = []"
| "expr_walk_children (FuncLit ty body) = [ty, body]"
| "expr_walk_children (CompositeLit ty elts) = opt ty @ elts"
| "expr_walk_children (ParenExpr x) = [x]"
| "expr_walk_children (SelectorExpr x sel) = [x, sel]"
| "expr_walk_children (IndexExpr x i) = [x, i]"
| "expr_walk_children (IndexListExpr x ixs) = x # ixs"
| "expr_walk_children (SliceExpr x lo hi mx) = x # opt lo @ opt hi @ opt mx"
| "expr_walk_children (TypeAssertExpr x ty) = x # opt ty"
| "expr_walk_children (CallExpr fn args) = fn # args"
| "expr_walk_children (StarExpr x) = [x]"
| "expr_walk_children (UnaryExpr x) = [x]"
| "expr_walk_children (BinaryExpr x y) = [x, y]"
| "expr_walk_children (KeyValueExpr k v) = [k, v]"

primrec type_expr_walk_children :: "'a type_expr \<Rightarrow> 'a option list" where
  "type_expr_walk_children (ArrayType len elt) = opt len @ [elt]"
| "type_expr_walk_children (StructType fields) = [fields]"
| "type_expr_walk_children (FuncType tparams params results) = opt tparams @ opt params @ opt results"
| "type_expr_walk_children (InterfaceType methods) = [methods]"
| "type_expr_walk_children (MapType k v) = [k, v]"
| "type_expr_walk_children (ChanType v) = [v]"

primrec stmt_walk_children :: "'a stmt \<Rightarrow> 'a option list" where
  "stmt_walk_children BadStmt = []"
| "stmt_walk_children (DeclStmt d) = [d]"
| "stmt_walk_children EmptyStmt = []"
| "stmt_walk_children (LabeledStmt l s) = [l, s]"
| "stmt_walk_children (ExprStmt x) = [x]"
| "stmt_walk_children (SendStmt c v) = [c, v]"
| "stmt_walk_children (IncDecStmt x) = [x]"
| "stmt_walk_children (AssignStmt lhs rhs) = lhs @ rhs"
| "stmt_walk_children (GoStmt c) = [c]"
| "stmt_walk_children (DeferStmt c) = [c]"
| "stmt_walk_children (ReturnStmt rs) = rs"
| "stmt_walk_children (BranchStmt l) = opt l"
| "stmt_walk_children (BlockStmt l) = l"
| "stmt_walk_children (IfStmt init cond body els) = opt init @ [cond, body] @ opt els"
| "stmt_walk_children (CaseClause l body) = l @ body"
| "stmt_walk_children (SwitchStmt init tag body) = opt init @ opt tag @ [body]"
| "stmt_walk_children (TypeSwitchStmt init assign body) = opt init @ [assign, body]"
| "stmt_walk_children (CommClause comm body) = opt comm @ body"
| "stmt_walk_children (SelectStmt body) = [body]"
| "stmt_walk_children (ForStmt init cond post body) = opt init @ opt cond @ opt post @ [body]"
| "stmt_walk_children (RangeStmt k v x body) = opt k @ opt v @ [x, body]"

primrec decl_walk_children :: "'a decl \<Rightarrow> 'a option list" where
  "decl_walk_children (ImportSpec doc nm path c) = opt doc @ opt nm @ [path] @ opt c"
| "decl_walk_children (ValueSpec doc names ty vals c) = opt doc @ names @ opt ty @ vals @ opt c"
| "decl_walk_children (TypeSpec doc nm tparams ty c) = opt doc @ [nm] @ opt tparams @ [ty] @ opt c"
| "decl_walk_children BadDecl = []"
| "decl_walk_children (GenDecl doc specs) = opt doc @ specs"
| "decl_walk_children (FuncDecl doc recv nm ty body) = opt doc @ opt recv @ [nm, ty] @ opt body"

primrec walk_children :: "'a node \<Rightarrow> 'a option list" where
  "walk_children (Comment t) = []"
| "walk_children (CommentGroup l) = l"
| "walk_children (FieldNode doc names ty tag c) = opt doc @ names @ opt ty @ opt tag @ opt c"
| "walk_children (FieldList l) = l"
| "walk_children (Expr e) = expr_walk_children e"
| "walk_children (TypeExpr t) = type_expr_walk_children t"
| "walk_children (Stmt s) = stmt_walk_children s"
| "walk_children (Decl d) = decl_walk_children d"
| "walk_children (File doc nm decls) = opt doc @ [nm] @ decls"
| "walk_children (Package files) = files"

text \<open>
  \<^verbatim>\<open>ast.Walk(v, node)\<close> for a visitor that always asks to continue, as the closure given
  to \<^verbatim>\<open>ast.Inspect\<close> here does (it returns \<^verbatim>\<open>true\<close>): visit the node, walk each child in
  order, visit \<^verbatim>\<open>nil\<close>. The visitor \<open>f\<close> transforms the state the closure captures.
  Walking nil panics: \<^verbatim>\<open>Walk\<close> has no case for it. Each nested call of \<^verbatim>\<open>Walk\<close> takes a
  stack frame.
\<close>

primrec Walk :: "nat \<Rightarrow> 'a heap \<Rightarrow> ('a option \<Rightarrow> 's \<Rightarrow> 's outcome) \<Rightarrow> 'a option \<Rightarrow> 's \<Rightarrow> 's outcome" where
  "Walk 0 h f r s = OutOfFuel"
| "Walk (Suc k) h f r s =
     bind (f r s) (\<lambda>s1.
       case r of
         None \<Rightarrow> Panics NilPointer
       | Some a \<Rightarrow> bind (for_each (Walk k h f) (walk_children (h a)) s1) (f None))"

section \<open>marshalAST\<close>

text \<open>
  \<^verbatim>\<open>childNode := marshalAST(x, visited); if childNode != nil { astNode.Children =
  append(astNode.Children, childNode) }\<close>, on the pair of the children built so far and
  the visited map (its set of keys).
\<close>

definition call_append ::
  "('a option \<Rightarrow> 'a set \<Rightarrow> (ASTNode option \<times> 'a set) outcome) \<Rightarrow>
   'a option \<Rightarrow> ASTNode list \<times> 'a set \<Rightarrow> (ASTNode list \<times> 'a set) outcome" where
  "call_append m r s =
     (case s of (cs, V) \<Rightarrow>
        bind (m r V) (\<lambda>(res, V').
          Returns (case res of None \<Rightarrow> cs | Some c \<Rightarrow> cs @ [c], V')))"

text \<open>
  The closure given to \<^verbatim>\<open>ast.Inspect\<close>: \<^verbatim>\<open>if n != nil { childNode := marshalAST(n,
  visited); ... }; return true\<close>. It returns \<^verbatim>\<open>true\<close> also for a node already visited.
\<close>

definition inspect_fn ::
  "('a option \<Rightarrow> 'a set \<Rightarrow> (ASTNode option \<times> 'a set) outcome) \<Rightarrow>
   'a option \<Rightarrow> ASTNode list \<times> 'a set \<Rightarrow> (ASTNode list \<times> 'a set) outcome" where
  "inspect_fn m r s = (case r of None \<Rightarrow> Returns s | Some a \<Rightarrow> call_append m (Some a) s)"

text \<open>
  \<^verbatim>\<open>marshalAST(node, visited)\<close>: nil for a nil node and for a visited one; otherwise the
  node is recorded, the record is made with its \<^verbatim>\<open>Type\<close>, the switch case fills it and
  recurses into its fields, and \<^verbatim>\<open>ast.Inspect(node, ...)\<close> walks the node, appending to
  the same children. The call returns the record and the visited map as it is then.
\<close>

primrec marshalAST ::
  "nat \<Rightarrow> 'a heap \<Rightarrow> 'a option \<Rightarrow> 'a set \<Rightarrow> (ASTNode option \<times> 'a set) outcome" where
  "marshalAST 0 h r V = OutOfFuel"
| "marshalAST (Suc k) h r V =
     (case r of
        None \<Rightarrow> Returns (None, V)
      | Some a \<Rightarrow>
          if a \<in> V then Returns (None, V)
          else
            bind (switch_fields h (h a)) (\<lambda>(nm, val, cms).
            bind (for_each (call_append (marshalAST k h)) (marshal_children (h a)) ([], insert a V)) (\<lambda>s1.
            bind (Walk k h (inspect_fn (marshalAST k h)) (Some a) s1) (\<lambda>(cs, V').
            Returns (Some (ASTNode nm (type_name (h a)) cs val cms), V')))))"

section \<open>The encoder\<close>

text \<open>
  \<^verbatim>\<open>jsonEncoder.Encode(astNode)\<close> turns the record into a JSON value following the struct
  tags: the fields in the order of their declaration, \<^verbatim>\<open>type\<close> always, and \<^verbatim>\<open>name\<close>,
  \<^verbatim>\<open>children\<close>, \<^verbatim>\<open>value\<close>, \<^verbatim>\<open>comments\<close> under \<^verbatim>\<open>omitempty\<close>: left out when the string is
  empty, the slice is empty, the interface is nil. A nil pointer encodes as \<^verbatim>\<open>null\<close>. The
  textual layout of a JSON value (indentation, string escapes) belongs to the encoder
  library and is a parameter of \<open>processFile\<close> below.
\<close>

datatype json = JNull | JString string | JArray "json list" | JObject "(string \<times> json) list"

fun encode :: "ASTNode \<Rightarrow> json" where
  "encode (ASTNode nm ty cs v cms) =
     JObject
       ((if nm = [] then [] else [(''name'', JString nm)]) @
        [(''type'', JString ty)] @
        (if cs = [] then [] else [(''children'', JArray (map encode cs))]) @
        (case v of None \<Rightarrow> [] | Some s \<Rightarrow> [(''value'', JString s)]) @
        (if cms = [] then [] else [(''comments'', JArray (map JString cms))]))"

definition encode_ptr :: "ASTNode option \<Rightarrow> json" where
  "encode_ptr p = (case p of None \<Rightarrow> JNull | Some t \<Rightarrow> encode t)"

text \<open>The keys of a JSON object, and the absence of \<^verbatim>\<open>null\<close> and of empty arrays in a value.\<close>

definition object_keys :: "json \<Rightarrow> string list" where
  "object_keys j = (case j of JObject kvs \<Rightarrow> map fst kvs | _ \<Rightarrow> [])"

fun no_placeholder :: "json \<Rightarrow> bool" where
  "no_placeholder JNull = False"
| "no_placeholder (JString s) = True"
| "no_placeholder (JArray xs) = (xs \<noteq> [] \<and> list_all no_placeholder xs)"
| "no_placeholder (JObject kvs) = list_all (\<lambda>kv. no_placeholder (snd kv)) kvs"

section \<open>processFile and processFolder\<close>

text \<open>
  The collaborators of \<^verbatim>\<open>processFile\<close> outside this program: the parser
  (\<^verbatim>\<open>parser.ParseFile\<close>: an error text, or the heap it built and the address of the
  \<^verbatim>\<open>*ast.File\<close>), the path arithmetic of \<^verbatim>\<open>path/filepath\<close> that yields \<^verbatim>\<open>newFilePath\<close>,
  \<^verbatim>\<open>os.Create\<close> (its error, if any), the encoder's layout, and the error of writing the
  document, if any. The world is the content of the files written and the lines printed.
\<close>

record 'a env =
  parse :: "string \<Rightarrow> string + ('a heap \<times> 'a)"
  output_path :: "string \<Rightarrow> string"
  create_error :: "string \<Rightarrow> string option"
  render :: "json \<Rightarrow> string"
  write_error :: "string \<Rightarrow> string option"

record world =
  files :: "string \<rightharpoonup> string"
  stdout :: "string list"

text \<open>
  \<^verbatim>\<open>processFile\<close> returns an error (\<open>Returns (Some msg)\<close>) or nil (\<open>Returns None\<close>), or
  panics or overflows the stack inside \<^verbatim>\<open>marshalAST\<close>; nothing recovers a panic.
  \<^verbatim>\<open>os.Create\<close> creates or truncates the output file before \<^verbatim>\<open>marshalAST\<close> runs. What a
  failed write leaves in the file is not determined by the source; the model leaves it
  empty.
\<close>

definition processFile :: "'a env \<Rightarrow> nat \<Rightarrow> string \<Rightarrow> world \<Rightarrow> string option outcome \<times> world" where
  "processFile env fuel sourceFilePath w =
     (case parse env sourceFilePath of
        Inl err \<Rightarrow>
          (Returns (Some (''error parsing Go source file '' @ sourceFilePath @ '': '' @ err)), w)
      | Inr (h, file) \<Rightarrow>
          (let newFilePath = output_path env sourceFilePath in
           case create_error env newFilePath of
             Some err \<Rightarrow>
               (Returns (Some (''error creating output file '' @ newFilePath @ '': '' @ err)), w)
           | None \<Rightarrow>
               (let w1 = w\<lparr>files := (files w)(newFilePath \<mapsto> [])\<rparr> in
                case marshalAST fuel h (Some file) {} of
                  Panics e \<Rightarrow> (Panics e, w1)
                | OutOfFuel \<Rightarrow> (OutOfFuel, w1)
                | Returns (astNode, visited) \<Rightarrow>
                    (case write_error env newFilePath of
                       Some err \<Rightarrow>
                         (Returns (Some (''error serializing AST to JSON for file '' @
                            sourceFilePath @ '': '' @ err)), w1)
                     | None \<Rightarrow>
                         (Returns None,
                          w1\<lparr>files := (files w1)(newFilePath \<mapsto> render env (encode_ptr astNode)),
                             stdout := stdout w1 @ [''AST generated and saved to '' @ newFilePath]\<rparr>)))))"

text \<open>
  \<^verbatim>\<open>filepath.Walk\<close> calls the function once per file or directory, in lexical order, with
  its path, its \<^verbatim>\<open>os.FileInfo\<close> and the error of reading it, and stops at the first call
  that returns an error, which it returns. An entry is the arguments of one call; the
  list of entries is what the walk would visit if every call returned nil.
\<close>

record entry =
  entry_path :: string
  entry_name :: string
  entry_is_dir :: bool
  entry_err :: "string option"

definition has_suffix :: "string \<Rightarrow> string \<Rightarrow> bool" where
  "has_suffix s suf = (length suf \<le> length s \<and> drop (length s - length suf) s = suf)"

text \<open>The function literal that \<^verbatim>\<open>processFolder\<close> passes to \<^verbatim>\<open>filepath.Walk\<close>.\<close>

definition walk_fn :: "'a env \<Rightarrow> nat \<Rightarrow> entry \<Rightarrow> world \<Rightarrow> string option outcome \<times> world" where
  "walk_fn env fuel e w =
     (case entry_err e of
        Some err \<Rightarrow> (Returns (Some err), w)
      | None \<Rightarrow>
          if \<not> entry_is_dir e \<and> has_suffix (entry_name e) ''.go''
          then processFile env fuel (entry_path e) w
          else (Returns None, w))"

primrec filepath_Walk ::
  "(entry \<Rightarrow> world \<Rightarrow> string option outcome \<times> world) \<Rightarrow> entry list \<Rightarrow> world \<Rightarrow>
   string option outcome \<times> world" where
  "filepath_Walk fn [] w = (Returns None, w)"
| "filepath_Walk fn (e # es) w =
     (case fn e w of
        (Returns None, w') \<Rightarrow> filepath_Walk fn es w'
      | (r, w') \<Rightarrow> (r, w'))"

definition processFolder ::
  "'a env \<Rightarrow> nat \<Rightarrow> string \<Rightarrow> entry list \<Rightarrow> world \<Rightarrow> string option outcome \<times> world" where
  "processFolder env fuel folderPath entries w =
     (case filepath_Walk (walk_fn env fuel) entries w of
        (Returns (Some err), w') \<Rightarrow>
          (Returns (Some (''error processing folder '' @ folderPath @ '': '' @ err)), w')
      | (r, w') \<Rightarrow> (r, w'))"

section \<open>Notions for stating the properties\<close>

text \<open>The number of records in an output tree, and in the result of a call.\<close>

fun nodes :: "ASTNode \<Rightarrow> nat" where
  "nodes (ASTNode nm ty cs v cms) = Suc (sum_list (map nodes cs))"

definition node_count :: "ASTNode option \<Rightarrow> nat" where
  "node_count res = (case res of None \<Rightarrow> 0 | Some t \<Rightarrow> nodes t)"

text \<open>
  One step of a run, on the pair of the children built so far and the visited set: the
  run appends records and records new identities, as many of the one as of the other.
\<close>

definition grows :: "ASTNode list \<times> 'a set \<Rightarrow> ASTNode list \<times> 'a set \<Rightarrow> bool" where
  "grows s s' =
     (\<exists>ds S. fst s' = fst s @ ds \<and> snd s' = snd s \<union> S \<and> S \<inter> snd s = {} \<and> finite S \<and>
        sum_list (map nodes ds) = card S)"

text \<open>An outcome stays what it is when the stack grows, unless it was \<open>OutOfFuel\<close>.\<close>

definition below :: "'r outcome \<Rightarrow> 'r outcome \<Rightarrow> bool" where
  "below x y = (x = OutOfFuel \<or> x = y)"

text \<open>The kinds whose case assigns \<^verbatim>\<open>Value\<close>, and those among them that are leaves.\<close>

definition carries_value :: "'a node \<Rightarrow> bool" where
  "carries_value n =
     (case n of
        Expr e \<Rightarrow> (case e of Ident s \<Rightarrow> True | BasicLit s \<Rightarrow> True | _ \<Rightarrow> False)
      | File doc nm decls \<Rightarrow> True
      | _ \<Rightarrow> False)"

definition literal_leaf :: "'a node \<Rightarrow> bool" where
  "literal_leaf n =
     (case n of
        Expr e \<Rightarrow> (case e of Ident s \<Rightarrow> True | BasicLit s \<Rightarrow> True | _ \<Rightarrow> False)
      | _ \<Rightarrow> False)"

text \<open>The non-nil entries of a list of pointers.\<close>

primrec addrs :: "'a option list \<Rightarrow> 'a list" where
  "addrs [] = []"
| "addrs (r # rs) = (case r of None \<Rightarrow> addrs rs | Some a \<Rightarrow> a # addrs rs)"

text \<open>
  The nodes below an address in the order \<^verbatim>\<open>ast.Walk\<close> reaches them, down to a depth;
  \<open>None\<close> when the graph is deeper. An input is a tree without shared references when
  this list exists and is distinct.
\<close>

primrec preorder :: "nat \<Rightarrow> 'a heap \<Rightarrow> 'a \<Rightarrow> 'a list option" where
  "preorder 0 h a = None"
| "preorder (Suc j) h a =
     map_option (\<lambda>ls. a # concat ls) (those (map (preorder j h) (addrs (walk_children (h a)))))"

text \<open>
  The children of an output record on a tree, as the code produces them: the nodes the
  switch case passes to \<^verbatim>\<open>marshalAST\<close>, then the other nodes \<^verbatim>\<open>ast.Walk\<close> descends into.
  \<open>expected\<close> is the output tree this order describes.
\<close>

definition child_order :: "'a node \<Rightarrow> 'a list" where
  "child_order n =
     addrs (marshal_children n) @
     filter (\<lambda>c. c \<notin> set (addrs (marshal_children n))) (addrs (walk_children n))"

primrec expected :: "nat \<Rightarrow> 'a heap \<Rightarrow> 'a \<Rightarrow> ASTNode option" where
  "expected 0 h a = None"
| "expected (Suc j) h a =
     (case switch_fields h (h a) of
        Returns (nm, val, cms) \<Rightarrow>
          map_option (\<lambda>cs. ASTNode nm (type_name (h a)) cs val cms)
            (those (map (expected j h) (child_order (h a))))
      | _ \<Rightarrow> None)"

text \<open>
  No node below an address panics: its switch case returns (the kind has a case, the
  names it reads are there), and no field that \<^verbatim>\<open>ast.Walk\<close> walks without a guard is nil.
\<close>

primrec panic_free :: "nat \<Rightarrow> 'a heap \<Rightarrow> 'a \<Rightarrow> bool" where
  "panic_free 0 h a = False"
| "panic_free (Suc j) h a =
     ((case switch_fields h (h a) of Returns x \<Rightarrow> True | _ \<Rightarrow> False) \<and>
      None \<notin> set (walk_children (h a)) \<and>
      list_all (panic_free j h) (addrs (walk_children (h a))))"

section \<open>Example inputs\<close>

text \<open>\<^verbatim>\<open>x + x\<close> built with one \<^verbatim>\<open>Ident\<close> shared by both operands.\<close>

definition shared_heap :: "nat heap" where
  "shared_heap = (\<lambda>a. if a = 0 then Expr (BinaryExpr (Some 1) (Some 1)) else Expr (Ident ''x''))"

text \<open>\<^verbatim>\<open>p := &ast.ParenExpr{}; p.X = p\<close>: one node, reachable from itself.\<close>

definition cyclic_heap :: "nat heap" where
  "cyclic_heap = (\<lambda>a. Expr (ParenExpr (Some 0)))"

text \<open>A file that holds only \<^verbatim>\<open>package main\<close>, and the same tree ten addresses further.\<close>

definition file_heap :: "nat heap" where
  "file_heap = (\<lambda>a. if a = 0 then File None (Some 1) [] else Expr (Ident ''main''))"

definition shifted_heap :: "nat heap" where
  "shifted_heap = (\<lambda>b. map_node (\<lambda>a. a + 10) (file_heap (b - 10)))"

text \<open>The type \<^verbatim>\<open>[3]int\<close>.\<close>

definition array_heap :: "nat heap" where
  "array_heap =
     (\<lambda>a. if a = 0 then TypeExpr (ArrayType (Some 1) (Some 2))
          else if a = 1 then Expr (BasicLit ''3'')
          else Expr (Ident ''int''))"

text \<open>\<^verbatim>\<open>func () f() { return }\<close>: a receiver list, the name, the signature, the body.\<close>

definition func_heap :: "nat heap" where
  "func_heap =
     (\<lambda>a. if a = 0 then Decl (FuncDecl None (Some 1) (Some 2) (Some 3) (Some 4))
          else if a = 1 then FieldList []
          else if a = 2 then Expr (Ident ''f'')
          else if a = 3 then TypeExpr (FuncType None (Some 5) None)
          else if a = 4 then Stmt (BlockStmt [Some 6])
          else if a = 5 then FieldList []
          else if a = 6 then Stmt (ReturnStmt [])
          else Expr BadExpr)"


text \<open>A compact layout of a JSON value, for the example environments.\<close>

primrec join :: "string \<Rightarrow> string list \<Rightarrow> string" where
  "join sep [] = []"
| "join sep (x # xs) = (if xs = [] then x else x @ sep @ join sep xs)"

fun sample_render :: "json \<Rightarrow> string" where
  "sample_render JNull = ''null''"
| "sample_render (JString s) = CHR 0x22 # s @ [CHR 0x22]"
| "sample_render (JArray xs) = ''['' @ join '','' (map sample_render xs) @ '']''"
| "sample_render (JObject kvs) =
     ''{'' @ join '','' (map (\<lambda>kv. CHR 0x22 # fst kv @ [CHR 0x22] @ '':'' @ sample_render (snd kv)) kvs) @ ''}''"


text \<open>A folder \<^verbatim>\<open>d\<close> with \<^verbatim>\<open>a.go\<close>, which does not parse, and \<^verbatim>\<open>b.go\<close>, which does.\<close>

definition folder_env :: "nat env" where
  "folder_env =
     \<lparr>parse = (\<lambda>p. if p = ''d/a.go'' then Inl ''expected declaration'' else Inr (file_heap, 0)),
      output_path = (\<lambda>p. if p = ''d/a.go'' then ''d/a.json'' else ''d/b.json''),
      create_error = (\<lambda>p. None), render = sample_render, write_error = (\<lambda>p. None)\<rparr>"

definition folder_entries :: "entry list" where
  "folder_entries =
     [\<lparr>entry_path = ''d'', entry_name = ''d'', entry_is_dir = True, entry_err = None\<rparr>,
      \<lparr>entry_path = ''d/a.go'', entry_name = ''a.go'', entry_is_dir = False, entry_err = None\<rparr>,
      \<lparr>entry_path = ''d/b.go'', entry_name = ''b.go'', entry_is_dir = False, entry_err = None\<rparr>]"

definition empty_world :: world where
  "empty_world = \<lparr>files = Map.empty, stdout = []\<rparr>"

section \<open>Runs: what every call preserves\<close>

lemma bind_Returns [simp]: "bind (Returns x) g = g x"
  by (simp add: bind_def)

lemma bind_Panics [simp]: "bind (Panics e) g = Panics e"
  by (simp add: bind_def)

lemma bind_OutOfFuel [simp]: "bind OutOfFuel g = OutOfFuel"
  by (simp add: bind_def)

lemma bind_eq_Returns: "bind m g = Returns y \<longleftrightarrow> (\<exists>x. m = Returns x \<and> g x = Returns y)"
  by (cases m) simp_all

lemma for_each_rel:
  assumes step: "\<And>x s s'. g x s = Returns s' \<Longrightarrow> R s s'"
    and refl: "\<And>s. R s s"
    and trans: "\<And>s t u. R s t \<Longrightarrow> R t u \<Longrightarrow> R s u"
  shows "for_each g xs s = Returns s' \<Longrightarrow> R s s'"
proof (induction xs arbitrary: s)
  case Nil
  then show ?case by (simp add: refl)
next
  case (Cons x xs)
  then obtain s1 where a: "g x s = Returns s1" and b: "for_each g xs s1 = Returns s'"
    by (auto simp: bind_eq_Returns)
  from step [OF a] Cons.IH [OF b] show ?case by (rule trans)
qed

lemma Walk_rel:
  assumes step: "\<And>r s s'. f r s = Returns s' \<Longrightarrow> R s s'"
    and refl: "\<And>s. R s s"
    and trans: "\<And>s t u. R s t \<Longrightarrow> R t u \<Longrightarrow> R s u"
  shows "Walk k h f r s = Returns s' \<Longrightarrow> R s s'"
proof (induction k arbitrary: r s s')
  case 0
  then show ?case by simp
next
  case (Suc k)
  from Suc.prems obtain s1 a s2 where r: "r = Some a" and a: "f r s = Returns s1"
    and b: "for_each (Walk k h f) (walk_children (h a)) s1 = Returns s2"
    and c: "f None s2 = Returns s'"
    by (auto simp: bind_eq_Returns split: option.splits)
  have "R s1 s2"
    by (rule for_each_rel [where g = "Walk k h f" and R = R, OF Suc.IH refl trans b])
  with step [OF a] step [OF c] show ?case by (blast intro: trans)
qed

lemma grows_refl: "grows s s"
  unfolding grows_def by (intro exI [of _ "[]"] exI [of _ "{}"]) simp

lemma grows_trans:
  assumes "grows s t" and "grows t u"
  shows "grows s u"
proof -
  from assms(1) obtain ds S where 1: "fst t = fst s @ ds" "snd t = snd s \<union> S" "S \<inter> snd s = {}"
    "finite S" "sum_list (map nodes ds) = card S"
    unfolding grows_def by blast
  from assms(2) obtain es T where 2: "fst u = fst t @ es" "snd u = snd t \<union> T" "T \<inter> snd t = {}"
    "finite T" "sum_list (map nodes es) = card T"
    unfolding grows_def by blast
  have disj: "S \<inter> T = {}" using 1(2) 2(3) by blast
  have "card (S \<union> T) = card S + card T"
    using 1(4) 2(4) disj by (simp add: card_Un_disjoint)
  then have "sum_list (map nodes (ds @ es)) = card (S \<union> T)"
    using 1(5) 2(5) by simp
  moreover have "fst u = fst s @ (ds @ es)" using 1(1) 2(1) by simp
  moreover have "snd u = snd s \<union> (S \<union> T)" using 1(2) 2(2) by blast
  moreover have "(S \<union> T) \<inter> snd s = {}" using 1(2,3) 2(3) by blast
  moreover have "finite (S \<union> T)" using 1(4) 2(4) by simp
  ultimately show ?thesis unfolding grows_def by blast
qed

lemma call_append_grows:
  assumes m: "\<And>r V res V'. m r V = Returns (res, V') \<Longrightarrow>
      \<exists>S. V' = V \<union> S \<and> S \<inter> V = {} \<and> finite S \<and> node_count res = card S"
    and run: "call_append m r s = Returns s'"
  shows "grows s s'"
proof -
  obtain cs V where s: "s = (cs, V)" by (cases s)
  from run s obtain res V' where 1: "m r V = Returns (res, V')"
    and 2: "s' = (case res of None \<Rightarrow> cs | Some c \<Rightarrow> cs @ [c], V')"
    by (auto simp: call_append_def bind_eq_Returns)
  from m [OF 1] obtain S where S: "V' = V \<union> S" "S \<inter> V = {}" "finite S" "node_count res = card S"
    by blast
  show ?thesis
    unfolding grows_def
    by (rule exI [of _ "case res of None \<Rightarrow> [] | Some c \<Rightarrow> [c]"], rule exI [of _ S])
      (use s 2 S in \<open>auto simp: node_count_def split: option.splits\<close>)
qed

lemma inspect_fn_grows:
  assumes m: "\<And>r V res V'. m r V = Returns (res, V') \<Longrightarrow>
      \<exists>S. V' = V \<union> S \<and> S \<inter> V = {} \<and> finite S \<and> node_count res = card S"
    and run: "inspect_fn m r s = Returns s'"
  shows "grows s s'"
proof (cases r)
  case None
  with run show ?thesis by (simp add: inspect_fn_def grows_refl)
next
  case (Some a)
  with run have c: "call_append m (Some a) s = Returns s'" by (simp add: inspect_fn_def)
  show ?thesis by (rule call_append_grows [OF _ c]) (rule m)
qed

lemma marshalAST_fresh:
  assumes "marshalAST k h (Some a) V = Returns (res, V')" and "a \<notin> V"
  obtains k' nm val cms s1 cs where "k = Suc k'"
    and "switch_fields h (h a) = Returns (nm, val, cms)"
    and "for_each (call_append (marshalAST k' h)) (marshal_children (h a)) ([], insert a V) = Returns s1"
    and "Walk k' h (inspect_fn (marshalAST k' h)) (Some a) s1 = Returns (cs, V')"
    and "res = Some (ASTNode nm (type_name (h a)) cs val cms)"
proof -
  obtain k' where k: "k = Suc k'" using assms(1) by (cases k) simp_all
  with assms that show ?thesis
    by (auto simp: bind_eq_Returns)
qed

lemma marshalAST_seen:
  assumes "marshalAST k h r V = Returns (res, V')" and "r = None \<or> (\<exists>a. r = Some a \<and> a \<in> V)"
  shows "res = None \<and> V' = V"
proof -
  obtain k' where k: "k = Suc k'" using assms(1) by (cases k) simp_all
  with assms show ?thesis by auto
qed

lemma marshalAST_counts:
  "marshalAST k h r V = Returns (res, V') \<Longrightarrow>
     \<exists>S. V' = V \<union> S \<and> S \<inter> V = {} \<and> finite S \<and> node_count res = card S"
proof (induction k arbitrary: r V res V')
  case 0
  then show ?case by simp
next
  case (Suc k)
  show ?case
  proof (cases "\<exists>a. r = Some a \<and> a \<notin> V")
    case False
    with Suc.prems have "res = None" "V' = V"
      by (auto split: option.splits if_splits)
    then show ?thesis by (intro exI [of _ "{}"]) (simp add: node_count_def)
  next
    case True
    then obtain a where a: "r = Some a" "a \<notin> V" by blast
    from Suc.prems a obtain nm val cms s1 cs where
      1: "for_each (call_append (marshalAST k h)) (marshal_children (h a)) ([], insert a V) = Returns s1"
      and 2: "Walk k h (inspect_fn (marshalAST k h)) (Some a) s1 = Returns (cs, V')"
      and 3: "res = Some (ASTNode nm (type_name (h a)) cs val cms)"
      by (auto simp: bind_eq_Returns)
    have g1: "grows ([], insert a V) s1"
      by (rule for_each_rel [where R = grows, OF call_append_grows [where m = "marshalAST k h"] grows_refl grows_trans 1])
        (rule Suc.IH)
    have g2: "grows s1 (cs, V')"
      by (rule Walk_rel [where R = grows, OF inspect_fn_grows [where m = "marshalAST k h"] grows_refl grows_trans 2])
        (rule Suc.IH)
    from grows_trans [OF g1 g2] obtain S where S: "V' = insert a V \<union> S" "S \<inter> insert a V = {}"
      "finite S" "sum_list (map nodes cs) = card S"
      unfolding grows_def by auto
    show ?thesis
      by (rule exI [of _ "insert a S"]) (use S a 3 in \<open>auto simp: node_count_def\<close>)
  qed
qed

lemma marshalAST_grows:
  assumes "marshalAST k h (Some a) V = Returns (res, V')" and "a \<notin> V"
  shows "\<exists>t. res = Some t \<and> grows ([], insert a V) (Children t, V')"
proof -
  from assms obtain k' nm val cms s1 cs where
    1: "for_each (call_append (marshalAST k' h)) (marshal_children (h a)) ([], insert a V) = Returns s1"
    and 2: "Walk k' h (inspect_fn (marshalAST k' h)) (Some a) s1 = Returns (cs, V')"
    and 3: "res = Some (ASTNode nm (type_name (h a)) cs val cms)"
    by (rule marshalAST_fresh)
  have g1: "grows ([], insert a V) s1"
    by (rule for_each_rel [where R = grows, OF call_append_grows [where m = "marshalAST k' h"] grows_refl grows_trans 1])
      (rule marshalAST_counts)
  have g2: "grows s1 (cs, V')"
    by (rule Walk_rel [where R = grows, OF inspect_fn_grows [where m = "marshalAST k' h"] grows_refl grows_trans 2])
      (rule marshalAST_counts)
  from grows_trans [OF g1 g2] 3 show ?thesis by simp
qed

section \<open>The fields of an emitted record\<close>

lemma marshalAST_Some:
  assumes "marshalAST k h r V = Returns (Some t, V')"
  obtains a where "r = Some a" and "a \<notin> V"
    and "switch_fields h (h a) = Returns (Name t, Value t, Comments t)"
    and "Type t = type_name (h a)"
proof -
  from assms marshalAST_seen [OF assms] obtain a where a: "r = Some a" "a \<notin> V"
    by (cases r) auto
  from assms [unfolded a(1)] a(2) obtain nm val cms cs where
    "switch_fields h (h a) = Returns (nm, val, cms)"
    and "Some t = Some (ASTNode nm (type_name (h a)) cs val cms)"
    by (rule marshalAST_fresh)
  with a that show ?thesis by simp
qed

lemma type_name_nonempty: "type_name n \<noteq> []"
proof (cases n)
  case (Expr e)
  then show ?thesis by (cases e) simp_all
next
  case (TypeExpr t)
  then show ?thesis by (cases t) simp_all
next
  case (Stmt s)
  then show ?thesis by (cases s) simp_all
next
  case (Decl d)
  then show ?thesis by (cases d) simp_all
qed simp_all

lemma no_placeholder_encode: "no_placeholder (encode t)"
proof (induction t)
  case (ASTNode nm ty cs v cms)
  then have "list_all no_placeholder (map encode cs)"
    by (simp add: list_all_iff)
  moreover have "list_all no_placeholder (map JString cms)"
    by (simp add: list_all_iff)
  ultimately show ?case
    by (simp split: option.splits)
qed

lemma switch_fields_value:
  "switch_fields h n = Returns (nm, val, cms) \<Longrightarrow> val \<noteq> None \<longleftrightarrow> carries_value n"
  by (auto simp: switch_fields_def carries_value_def bind_eq_Returns
      split: node.splits expr.splits decl.splits)

section \<open>Runs on trees\<close>

lemma addrs_append [simp]: "addrs (xs @ ys) = addrs xs @ addrs ys"
  by (induction xs) (simp_all split: option.splits)

lemma addrs_opt [simp]: "addrs (opt r) = (case r of None \<Rightarrow> [] | Some a \<Rightarrow> [a])"
  by (simp add: opt_def split: option.splits)

lemma those_map_Some:
  "those (map g ws) = Some ls \<longleftrightarrow> (\<forall>c\<in>set ws. g c \<noteq> None) \<and> ls = map (\<lambda>c. the (g c)) ws"
  by (induction ws arbitrary: ls) (auto split: option.splits)

lemma preorder_Suc_iff:
  "preorder (Suc j) h a = Some xs \<longleftrightarrow>
     (\<forall>c\<in>set (addrs (walk_children (h a))). preorder j h c \<noteq> None) \<and>
     xs = a # concat (map (\<lambda>c. the (preorder j h c)) (addrs (walk_children (h a))))"
  by (auto simp: those_map_Some)

lemma preorder_Suc:
  assumes "preorder j h a = Some xs"
  obtains j' where "j = Suc j'"
    and "\<forall>c\<in>set (addrs (walk_children (h a))). preorder j' h c \<noteq> None"
    and "xs = a # concat (map (\<lambda>c. the (preorder j' h c)) (addrs (walk_children (h a))))"
proof -
  obtain j' where j: "j = Suc j'" using assms by (cases j) simp_all
  with assms that show ?thesis by (auto simp: those_map_Some)
qed

lemma preorder_root: "preorder j h a = Some xs \<Longrightarrow> a \<in> set xs"
  by (erule preorder_Suc) simp

lemma distinct_concat_map:
  assumes "distinct (concat (map g ws))" and "\<forall>c\<in>set ws. c \<in> set (g c)"
  shows "distinct ws \<and> (\<forall>c\<in>set ws. distinct (g c)) \<and>
         (\<forall>c\<in>set ws. \<forall>d\<in>set ws. c \<noteq> d \<longrightarrow> set (g c) \<inter> set (g d) = {})"
  using assms
proof (induction ws)
  case Nil
  then show ?case by simp
next
  case (Cons w ws)
  then have IH: "distinct ws \<and> (\<forall>c\<in>set ws. distinct (g c)) \<and>
         (\<forall>c\<in>set ws. \<forall>d\<in>set ws. c \<noteq> d \<longrightarrow> set (g c) \<inter> set (g d) = {})"
    by simp
  from Cons.prems have d: "distinct (g w)" and x: "\<forall>c\<in>set ws. set (g w) \<inter> set (g c) = {}"
    by auto
  have "w \<notin> set ws"
  proof
    assume "w \<in> set ws"
    with x have "set (g w) \<inter> set (g w) = {}" by blast
    moreover have "w \<in> set (g w)" using Cons.prems(2) by simp
    ultimately show False by blast
  qed
  with IH d x show ?case by auto
qed

lemma inspect_fn_None [simp]: "inspect_fn m None = Returns"
  by (rule ext) (simp add: inspect_fn_def)

lemma inspect_fn_Some [simp]: "inspect_fn m (Some a) s = call_append m (Some a) s"
  by (simp add: inspect_fn_def)

lemma bind_Returns_right [simp]: "bind x Returns = x"
  by (cases x) simp_all

lemma Walk_inspect_Some:
  assumes "Walk k h (inspect_fn m) (Some c) s = Returns s'"
  obtains k' s1 where "k = Suc k'"
    and "call_append m (Some c) s = Returns s1"
    and "for_each (Walk k' h (inspect_fn m)) (walk_children (h c)) s1 = Returns s'"
proof -
  obtain k' where k: "k = Suc k'" using assms by (cases k) simp_all
  with assms that show ?thesis by (auto simp: bind_eq_Returns)
qed

lemma Walk_nil: "Walk k h (inspect_fn m) None s \<noteq> Returns s'"
  by (cases k) simp_all

lemma for_each_Walk_same:
  assumes step: "\<And>d k s'. d \<in> D \<Longrightarrow> Walk k h (inspect_fn m) (Some d) s = Returns s' \<Longrightarrow> s' = s"
  shows "set (addrs rs) \<subseteq> D \<Longrightarrow> for_each (Walk k h (inspect_fn m)) rs s = Returns s' \<Longrightarrow> s' = s"
proof (induction rs)
  case Nil
  then show ?case by simp
next
  case (Cons r rs)
  from Cons.prems(2) obtain s1 where 1: "Walk k h (inspect_fn m) r s = Returns s1"
    and 2: "for_each (Walk k h (inspect_fn m)) rs s1 = Returns s'"
    by (auto simp: bind_eq_Returns)
  from 1 obtain d where r: "r = Some d" using Walk_nil [of k h m s s1] by (cases r) auto
  with Cons.prems(1) have "d \<in> D" by simp
  from step [OF this 1 [unfolded r]] have "s1 = s" .
  with 2 Cons.IH Cons.prems(1) r show ?case by simp
qed

lemma Walk_visited:
  assumes seen: "\<And>b res W'. b \<in> W \<Longrightarrow> m (Some b) W = Returns (res, W') \<Longrightarrow> res = None \<and> W' = W"
  shows "preorder j h c = Some ys \<Longrightarrow> set ys \<subseteq> W \<Longrightarrow>
         Walk k h (inspect_fn m) (Some c) (cs, W) = Returns s' \<Longrightarrow> s' = (cs, W)"
proof (induction j arbitrary: c ys k s')
  case 0
  then show ?case by simp
next
  case (Suc j)
  from Suc.prems(1) have sub: "\<forall>d\<in>set (addrs (walk_children (h c))). preorder j h d \<noteq> None"
    and ys: "ys = c # concat (map (\<lambda>d. the (preorder j h d)) (addrs (walk_children (h c))))"
    unfolding preorder_Suc_iff by blast+
  from ys Suc.prems(2) have c: "c \<in> W" by simp
  from Suc.prems(3) obtain k' s1 where
    1: "call_append m (Some c) (cs, W) = Returns s1"
    and 2: "for_each (Walk k' h (inspect_fn m)) (walk_children (h c)) s1 = Returns s'"
    by (rule Walk_inspect_Some)
  from 1 seen [OF c] have s1: "s1 = (cs, W)"
    by (auto simp: call_append_def bind_eq_Returns)
  show "s' = (cs, W)"
  proof (rule for_each_Walk_same [where D = "set (addrs (walk_children (h c)))" and s = "(cs, W)"])
    show "set (addrs (walk_children (h c))) \<subseteq> set (addrs (walk_children (h c)))" by simp
    show "for_each (Walk k' h (inspect_fn m)) (walk_children (h c)) (cs, W) = Returns s'"
      using 2 s1 by simp
  next
    fix d k s'
    assume d: "d \<in> set (addrs (walk_children (h c)))"
      and run: "Walk k h (inspect_fn m) (Some d) (cs, W) = Returns s'"
    from d sub obtain zs where zs: "preorder j h d = Some zs" by auto
    with d ys have "set zs \<subseteq> set ys" by auto
    with Suc.prems(2) have "set zs \<subseteq> W" by simp
    from Suc.IH [OF zs this run] show "s' = (cs, W)" .
  qed
qed

lemma Walk_fresh:
  assumes seen: "\<And>b W res W'. b \<in> W \<Longrightarrow> m (Some b) W = Returns (res, W') \<Longrightarrow> res = None \<and> W' = W"
    and spec: "\<And>res W'. m (Some d) W = Returns (res, W') \<Longrightarrow> res = Some t \<and> W' = W \<union> set ys"
    and pre: "preorder j h d = Some ys"
    and run: "Walk k h (inspect_fn m) (Some d) (cs, W) = Returns s'"
  shows "s' = (cs @ [t], W \<union> set ys)"
proof -
  from run obtain k' s1 where
    1: "call_append m (Some d) (cs, W) = Returns s1"
    and 2: "for_each (Walk k' h (inspect_fn m)) (walk_children (h d)) s1 = Returns s'"
    by (rule Walk_inspect_Some)
  from 1 spec have s1: "s1 = (cs @ [t], W \<union> set ys)"
    by (auto simp: call_append_def bind_eq_Returns)
  from pre obtain j' where
    sub: "\<forall>c\<in>set (addrs (walk_children (h d))). preorder j' h c \<noteq> None"
    and ys: "ys = d # concat (map (\<lambda>c. the (preorder j' h c)) (addrs (walk_children (h d))))"
    by (rule preorder_Suc)
  have "s' = s1"
  proof (rule for_each_Walk_same [where D = "set (addrs (walk_children (h d)))" and s = s1])
    show "set (addrs (walk_children (h d))) \<subseteq> set (addrs (walk_children (h d)))" by simp
    show "for_each (Walk k' h (inspect_fn m)) (walk_children (h d)) s1 = Returns s'" by (rule 2)
  next
    fix c k s''
    assume c: "c \<in> set (addrs (walk_children (h d)))"
      and w: "Walk k h (inspect_fn m) (Some c) s1 = Returns s''"
    from c sub obtain zs where zs: "preorder j' h c = Some zs" by auto
    with c ys have "set zs \<subseteq> W \<union> set ys" by auto
    from Walk_visited [where m = m, OF seen zs this w [unfolded s1]] s1
    show "s'' = s1" by simp
  qed
  with s1 show ?thesis by simp
qed

lemma for_each_call_append_tree:
  assumes spec: "\<And>c W res W'. c \<in> C \<Longrightarrow> sub c \<inter> W = {} \<Longrightarrow> m (Some c) W = Returns (res, W') \<Longrightarrow>
      res = E c \<and> E c \<noteq> None \<and> W' = W \<union> sub c"
    and none: "\<And>W res W'. m None W = Returns (res, W') \<Longrightarrow> res = None \<and> W' = W"
  shows "set (addrs rs) \<subseteq> C \<Longrightarrow> distinct (addrs rs) \<Longrightarrow>
     \<forall>c\<in>set (addrs rs). sub c \<inter> W = {} \<Longrightarrow>
     \<forall>c\<in>set (addrs rs). \<forall>d\<in>set (addrs rs). c \<noteq> d \<longrightarrow> sub c \<inter> sub d = {} \<Longrightarrow>
     for_each (call_append m) rs (cs, W) = Returns s' \<Longrightarrow>
     s' = (cs @ map (\<lambda>c. the (E c)) (addrs rs), W \<union> \<Union> (sub ` set (addrs rs))) \<and>
     (\<forall>c\<in>set (addrs rs). E c \<noteq> None)"
proof (induction rs arbitrary: cs W)
  case Nil
  then show ?case by simp
next
  case (Cons r rs)
  from Cons.prems(5) obtain s1 where 1: "call_append m r (cs, W) = Returns s1"
    and 2: "for_each (call_append m) rs s1 = Returns s'"
    by (auto simp: bind_eq_Returns)
  show ?case
  proof (cases r)
    case None
    with 1 obtain res W' where 3: "m None W = Returns (res, W')"
      and 4: "s1 = (case res of None \<Rightarrow> cs | Some t \<Rightarrow> cs @ [t], W')"
      by (auto simp: call_append_def bind_eq_Returns)
    from none [OF 3] 4 have "s1 = (cs, W)" by simp
    with Cons.IH [of W cs] Cons.prems None 2 show ?thesis by simp
  next
    case (Some c)
    with Cons.prems have c: "c \<in> C" "sub c \<inter> W = {}" "c \<notin> set (addrs rs)" by simp_all
    from 1 Some obtain res W' where 3: "m (Some c) W = Returns (res, W')"
      and 4: "s1 = (case res of None \<Rightarrow> cs | Some t \<Rightarrow> cs @ [t], W')"
      by (auto simp: call_append_def bind_eq_Returns)
    from spec [OF c(1,2) 3] have 5: "res = E c" "E c \<noteq> None" "W' = W \<union> sub c" by simp_all
    with 4 have s1: "s1 = (cs @ [the (E c)], W \<union> sub c)" by auto
    have "\<forall>d\<in>set (addrs rs). sub d \<inter> (W \<union> sub c) = {}"
      using Cons.prems(3,4) Some c(3) by auto
    with Cons.IH [of "W \<union> sub c" "cs @ [the (E c)]"] Cons.prems Some 2 s1
    have "s' = ((cs @ [the (E c)]) @ map (\<lambda>c. the (E c)) (addrs rs),
                (W \<union> sub c) \<union> \<Union> (sub ` set (addrs rs))) \<and>
          (\<forall>c\<in>set (addrs rs). E c \<noteq> None)"
      by simp
    with Some 5(2) show ?thesis by (simp add: Un_assoc)
  qed
qed

lemma for_each_Walk_tree:
  assumes vis: "\<And>d k cs W s'. d \<in> D \<Longrightarrow> sub d \<subseteq> W \<Longrightarrow>
      Walk k h (inspect_fn m) (Some d) (cs, W) = Returns s' \<Longrightarrow> s' = (cs, W)"
    and new: "\<And>d k cs W s'. d \<in> D \<Longrightarrow> sub d \<inter> W = {} \<Longrightarrow>
      Walk k h (inspect_fn m) (Some d) (cs, W) = Returns s' \<Longrightarrow>
      s' = (cs @ [the (E d)], W \<union> sub d) \<and> E d \<noteq> None"
    and nonempty: "\<And>d. d \<in> D \<Longrightarrow> sub d \<noteq> {}"
  shows "set (addrs rs) \<subseteq> D \<Longrightarrow> distinct (addrs rs) \<Longrightarrow>
     \<forall>d\<in>set (addrs rs). sub d \<subseteq> W \<or> sub d \<inter> W = {} \<Longrightarrow>
     \<forall>c\<in>set (addrs rs). \<forall>d\<in>set (addrs rs). c \<noteq> d \<longrightarrow> sub c \<inter> sub d = {} \<Longrightarrow>
     for_each (Walk k h (inspect_fn m)) rs (cs, W) = Returns s' \<Longrightarrow>
     s' = (cs @ map (\<lambda>d. the (E d)) (filter (\<lambda>d. \<not> sub d \<subseteq> W) (addrs rs)),
           W \<union> \<Union> (sub ` set (addrs rs))) \<and>
     (\<forall>d\<in>set (addrs rs). \<not> sub d \<subseteq> W \<longrightarrow> E d \<noteq> None)"
proof (induction rs arbitrary: cs W)
  case Nil
  then show ?case by simp
next
  case (Cons r rs)
  from Cons.prems(5) obtain s1 where 1: "Walk k h (inspect_fn m) r (cs, W) = Returns s1"
    and 2: "for_each (Walk k h (inspect_fn m)) rs s1 = Returns s'"
    by (auto simp: bind_eq_Returns)
  from 1 obtain d where r: "r = Some d" using Walk_nil [of k h m "(cs, W)" s1] by (cases r) auto
  with Cons.prems have d: "d \<in> D" "d \<notin> set (addrs rs)" "set (addrs rs) \<subseteq> D" "distinct (addrs rs)"
    and dW: "sub d \<subseteq> W \<or> sub d \<inter> W = {}"
    and rest: "\<forall>e\<in>set (addrs rs). sub e \<subseteq> W \<or> sub e \<inter> W = {}"
    and disj: "\<forall>e\<in>set (addrs rs). sub d \<inter> sub e = {}"
    and pw: "\<forall>c\<in>set (addrs rs). \<forall>e\<in>set (addrs rs). c \<noteq> e \<longrightarrow> sub c \<inter> sub e = {}"
    by auto
  show ?case
  proof (cases "sub d \<subseteq> W")
    case True
    from vis [OF d(1) True 1 [unfolded r]] have s1: "s1 = (cs, W)" .
    from Cons.IH [OF d(3,4) rest pw 2 [unfolded s1]] r True show ?thesis by auto
  next
    case False
    with dW have fresh: "sub d \<inter> W = {}" by simp
    from new [OF d(1) fresh 1 [unfolded r]]
    have s1: "s1 = (cs @ [the (E d)], W \<union> sub d)" and Ed: "E d \<noteq> None" by simp_all
    have rest': "\<forall>e\<in>set (addrs rs). sub e \<subseteq> W \<union> sub d \<or> sub e \<inter> (W \<union> sub d) = {}"
      using rest disj by blast
    have same: "\<not> sub e \<subseteq> W \<union> sub d \<longleftrightarrow> \<not> sub e \<subseteq> W" if "e \<in> set (addrs rs)" for e
    proof -
      from that disj have "sub d \<inter> sub e = {}" by simp
      moreover from that d(3) have "sub e \<noteq> {}" by (auto dest: nonempty)
      ultimately show ?thesis using rest that by blast
    qed
    then have filt: "filter (\<lambda>e. \<not> sub e \<subseteq> W \<union> sub d) (addrs rs) = filter (\<lambda>e. \<not> sub e \<subseteq> W) (addrs rs)"
      by (intro filter_cong [OF refl]) simp
    from Cons.IH [OF d(3,4) rest' pw 2 [unfolded s1]] filt same
    have "s' = ((cs @ [the (E d)]) @ map (\<lambda>d. the (E d)) (filter (\<lambda>e. \<not> sub e \<subseteq> W) (addrs rs)),
                (W \<union> sub d) \<union> \<Union> (sub ` set (addrs rs))) \<and>
          (\<forall>e\<in>set (addrs rs). \<not> sub e \<subseteq> W \<longrightarrow> E e \<noteq> None)"
      by simp
    with r False Ed show ?thesis by (simp add: Un_assoc)
  qed
qed

lemma marshal_subset_walk: "set (addrs (marshal_children n)) \<subseteq> set (addrs (walk_children n))"
proof (cases n)
  case (Expr e)
  then show ?thesis by (cases e) (auto split: option.splits)
next
  case (TypeExpr t)
  then show ?thesis by (cases t) (auto split: option.splits)
next
  case (Stmt s)
  then show ?thesis by (cases s) (auto split: option.splits)
next
  case (Decl d)
  then show ?thesis by (cases d) (auto split: option.splits)
qed (auto split: option.splits)

lemma marshal_distinct:
  assumes "distinct (addrs (walk_children n))"
  shows "distinct (addrs (marshal_children n))"
proof (cases n)
  case (Expr e)
  with assms show ?thesis by (cases e) (auto split: option.splits)
next
  case (TypeExpr t)
  with assms show ?thesis by (cases t) (auto split: option.splits)
next
  case (Stmt s)
  with assms show ?thesis by (cases s) (auto split: option.splits)
next
  case (Decl d)
  with assms show ?thesis by (cases d) (auto split: option.splits)
qed (use assms in \<open>auto split: option.splits\<close>)

lemma marshalAST_tree:
  "preorder j h a = Some xs \<Longrightarrow> distinct xs \<Longrightarrow> set xs \<inter> V = {} \<Longrightarrow>
   marshalAST k h (Some a) V = Returns (res, V') \<Longrightarrow>
   res = expected j h a \<and> res \<noteq> None \<and> V' = V \<union> set xs"
proof (induction j arbitrary: a xs V k res V')
  case 0
  then show ?case by simp
next
  case (Suc j)
  let ?ws = "addrs (walk_children (h a))"
  let ?ms = "addrs (marshal_children (h a))"
  let ?pre = "\<lambda>c. the (preorder j h c)"
  let ?sub = "\<lambda>c. set (the (preorder j h c))"
  let ?E = "expected j h"
  from Suc.prems(1) have nn: "\<forall>c\<in>set ?ws. preorder j h c \<noteq> None"
    and xs: "xs = a # concat (map ?pre ?ws)"
    unfolding preorder_Suc_iff by blast+
  have root: "\<forall>c\<in>set ?ws. c \<in> set (?pre c)"
  proof
    fix c assume "c \<in> set ?ws"
    with nn obtain ys where "preorder j h c = Some ys" by auto
    with preorder_root [OF this] show "c \<in> set (?pre c)" by simp
  qed
  from Suc.prems(2) xs have dc: "distinct (concat (map ?pre ?ws))" and a_out: "\<forall>c\<in>set ?ws. a \<notin> ?sub c"
    by auto
  from distinct_concat_map [OF dc root]
  have dw: "distinct ?ws" and dsub: "\<forall>c\<in>set ?ws. distinct (?pre c)"
    and pw: "\<forall>c\<in>set ?ws. \<forall>d\<in>set ?ws. c \<noteq> d \<longrightarrow> ?sub c \<inter> ?sub d = {}"
    by blast+
  from Suc.prems(3) xs have aV: "a \<notin> V" and subV: "\<forall>c\<in>set ?ws. ?sub c \<inter> V = {}"
    by auto
  have ms_ws: "set ?ms \<subseteq> set ?ws" by (rule marshal_subset_walk)
  have dm: "distinct ?ms" using dw by (rule marshal_distinct)
  from Suc.prems(4) aV obtain k' nm val cms s1 cs where
    sf: "switch_fields h (h a) = Returns (nm, val, cms)"
    and loop: "for_each (call_append (marshalAST k' h)) (marshal_children (h a)) ([], insert a V) = Returns s1"
    and walk: "Walk k' h (inspect_fn (marshalAST k' h)) (Some a) s1 = Returns (cs, V')"
    and res: "res = Some (ASTNode nm (type_name (h a)) cs val cms)"
    by (rule marshalAST_fresh)
  let ?m = "marshalAST k' h"
  have spec: "res = ?E c \<and> ?E c \<noteq> None \<and> W' = W \<union> ?sub c"
    if "c \<in> set ?ws" "?sub c \<inter> W = {}" "?m (Some c) W = Returns (res, W')" for c W res W'
  proof -
    from that(1) nn obtain ys where ys: "preorder j h c = Some ys" by auto
    with that(1) dsub have "distinct ys" by auto
    moreover from ys that(2) have "set ys \<inter> W = {}" by simp
    ultimately have "res = ?E c \<and> res \<noteq> None \<and> W' = W \<union> set ys"
      by (rule Suc.IH [OF ys _ _ that(3)])
    with ys show ?thesis by auto
  qed
  have seen: "res = None \<and> W' = W" if "b \<in> W" "?m (Some b) W = Returns (res, W')" for b W res W'
    using marshalAST_seen [OF that(2)] that(1) by simp
  have none: "res = None \<and> W' = W" if "?m None W = Returns (res, W')" for W res W'
    using marshalAST_seen [OF that] by simp
  let ?W1 = "insert a V \<union> \<Union> (?sub ` set ?ms)"
  have A: "s1 = ([] @ map (\<lambda>c. the (?E c)) ?ms, ?W1) \<and> (\<forall>c\<in>set ?ms. ?E c \<noteq> None)"
  proof (rule for_each_call_append_tree [where C = "set ?ws" and sub = ?sub and E = ?E and m = ?m,
        OF _ _ ms_ws dm _ _ loop])
    show "\<forall>c\<in>set ?ms. ?sub c \<inter> insert a V = {}"
      using ms_ws subV a_out by auto
    show "\<forall>c\<in>set ?ms. \<forall>d\<in>set ?ms. c \<noteq> d \<longrightarrow> ?sub c \<inter> ?sub d = {}"
      using ms_ws pw by blast
  qed (use spec none in blast)+
  from walk obtain k'' s1' where
    1: "call_append ?m (Some a) s1 = Returns s1'"
    and 2: "for_each (Walk k'' h (inspect_fn ?m)) (walk_children (h a)) s1' = Returns (cs, V')"
    by (rule Walk_inspect_Some)
  from A have s1: "s1 = (map (\<lambda>c. the (?E c)) ?ms, ?W1)" by simp
  have "s1' = s1"
    using 1 seen [of a ?W1] unfolding s1 by (auto simp: call_append_def bind_eq_Returns)
  with 2 s1 have 3: "for_each (Walk k'' h (inspect_fn ?m)) (walk_children (h a))
      (map (\<lambda>c. the (?E c)) ?ms, ?W1) = Returns (cs, V')"
    by simp
  have inW1: "?sub d \<subseteq> ?W1 \<longleftrightarrow> d \<in> set ?ms" if "d \<in> set ?ws" for d
  proof
    assume "d \<in> set ?ms"
    then show "?sub d \<subseteq> ?W1" by blast
  next
    assume sub: "?sub d \<subseteq> ?W1"
    from that root have dd: "d \<in> ?sub d" by simp
    with sub have "d \<in> ?W1" by blast
    moreover from dd that a_out have "d \<noteq> a" by auto
    moreover from dd that subV have "d \<notin> V" by auto
    ultimately obtain c where c: "c \<in> set ?ms" "d \<in> ?sub c" by auto
    show "d \<in> set ?ms"
    proof (rule ccontr)
      assume "d \<notin> set ?ms"
      with c have "c \<noteq> d" by auto
      moreover from c(1) ms_ws have "c \<in> set ?ws" by auto
      ultimately have "?sub c \<inter> ?sub d = {}" using pw that by simp
      with c(2) dd show False by blast
    qed
  qed
  have B: "(cs, V') = (map (\<lambda>c. the (?E c)) ?ms @ map (\<lambda>d. the (?E d)) (filter (\<lambda>d. \<not> ?sub d \<subseteq> ?W1) ?ws),
             ?W1 \<union> \<Union> (?sub ` set ?ws)) \<and>
           (\<forall>d\<in>set ?ws. \<not> ?sub d \<subseteq> ?W1 \<longrightarrow> ?E d \<noteq> None)"
  proof (rule for_each_Walk_tree [where D = "set ?ws" and sub = ?sub and E = ?E and m = ?m,
        OF _ _ _ subset_refl dw _ pw 3])
    fix d k cs W s'
    assume d: "d \<in> set ?ws" and W: "?sub d \<subseteq> W"
      and run: "Walk k h (inspect_fn ?m) (Some d) (cs, W) = Returns s'"
    from d nn obtain ys where ys: "preorder j h d = Some ys" by auto
    with W have "set ys \<subseteq> W" by simp
    from Walk_visited [where m = ?m, OF seen ys this run] show "s' = (cs, W)" .
  next
    fix d k cs W s'
    assume d: "d \<in> set ?ws" and W: "?sub d \<inter> W = {}"
      and run: "Walk k h (inspect_fn ?m) (Some d) (cs, W) = Returns s'"
    from d nn obtain ys where ys: "preorder j h d = Some ys" by auto
    have sp: "res = Some (the (?E d)) \<and> W' = W \<union> set ys \<and> ?E d \<noteq> None"
      if "?m (Some d) W = Returns (res, W')" for res W'
      using spec [OF d W that] ys by auto
    have ex: "?E d \<noteq> None"
    proof -
      from run obtain k' s1 where "call_append ?m (Some d) (cs, W) = Returns s1"
        by (rule Walk_inspect_Some)
      then obtain res W' where "?m (Some d) W = Returns (res, W')"
        by (auto simp: call_append_def bind_eq_Returns)
      with sp show ?thesis by blast
    qed
    have "s' = (cs @ [the (?E d)], W \<union> set ys)"
      by (rule Walk_fresh [where m = ?m, OF seen _ ys run]) (use sp in blast)+
    with ys ex show "s' = (cs @ [the (?E d)], W \<union> ?sub d) \<and> ?E d \<noteq> None" by simp
  next
    fix d assume "d \<in> set ?ws"
    with root show "?sub d \<noteq> {}" by auto
  next
    show "\<forall>d\<in>set ?ws. ?sub d \<subseteq> ?W1 \<or> ?sub d \<inter> ?W1 = {}"
    proof
      fix d assume d: "d \<in> set ?ws"
      show "?sub d \<subseteq> ?W1 \<or> ?sub d \<inter> ?W1 = {}"
      proof (cases "d \<in> set ?ms")
        case True
        then show ?thesis by blast
      next
        case False
        have "?sub d \<inter> ?sub c = {}" if "c \<in> set ?ms" for c
        proof -
          from that False have ne: "d \<noteq> c" by auto
          from that ms_ws have cw: "c \<in> set ?ws" by auto
          from pw [rule_format, OF d cw ne] show ?thesis .
        qed
        then have x: "\<forall>c\<in>set ?ms. ?sub d \<inter> ?sub c = {}" by simp
        from d a_out have y: "a \<notin> ?sub d" by simp
        from d subV have z: "?sub d \<inter> V = {}" by simp
        from x y z have "?sub d \<inter> ?W1 = {}" by blast
        then show ?thesis ..
      qed
    qed
  qed
  have filt: "filter (\<lambda>d. \<not> ?sub d \<subseteq> ?W1) ?ws = filter (\<lambda>d. d \<notin> set ?ms) ?ws"
  proof (rule filter_cong [OF refl])
    fix d assume "d \<in> set ?ws"
    from inW1 [OF this] show "(\<not> ?sub d \<subseteq> ?W1) = (d \<notin> set ?ms)"
      by (rule arg_cong [where f = Not])
  qed
  from B filt have cs: "cs = map (\<lambda>c. the (?E c)) (child_order (h a))"
    by (simp add: child_order_def)
  from A B inW1 have all: "\<forall>c\<in>set (child_order (h a)). ?E c \<noteq> None"
    by (auto simp: child_order_def)
  have "those (map ?E (child_order (h a))) = Some cs"
    unfolding those_map_Some using cs all by simp
  with sf res have e: "res = expected (Suc j) h a" by simp
  from res have rn: "res \<noteq> None" by simp
  from B ms_ws xs have "V' = V \<union> set xs" by auto
  with e rn show ?case by blast
qed

section \<open>Runs on trees: enough stack gives the result\<close>

lemma in_addrs: "Some d \<in> set rs \<longleftrightarrow> d \<in> set (addrs rs)"
  by (induction rs) (auto split: option.splits)

lemma for_each_same:
  "(\<And>r. r \<in> set rs \<Longrightarrow> g r s = Returns s) \<Longrightarrow> for_each g rs s = Returns s"
  by (induction rs) simp_all

lemma call_append_Returns:
  "m r V = Returns (res, V') \<Longrightarrow>
   call_append m r (cs, V) = Returns (case res of None \<Rightarrow> cs | Some c \<Rightarrow> cs @ [c], V')"
  by (simp add: call_append_def)

lemma Walk_visited_total:
  assumes seen: "\<And>b. b \<in> W \<Longrightarrow> m (Some b) W = Returns (None, W)"
  shows "preorder j h c = Some ys \<Longrightarrow> set ys \<subseteq> W \<Longrightarrow> panic_free j h c \<Longrightarrow> j \<le> k \<Longrightarrow>
   Walk k h (inspect_fn m) (Some c) (cs, W) = Returns (cs, W)"
proof (induction j arbitrary: c ys k)
  case 0
  then show ?case by simp
next
  case (Suc j)
  let ?ws = "addrs (walk_children (h c))"
  from Suc.prems(1) have nn: "\<forall>d\<in>set ?ws. preorder j h d \<noteq> None"
    and ys: "ys = c # concat (map (\<lambda>d. the (preorder j h d)) ?ws)"
    unfolding preorder_Suc_iff by blast+
  from Suc.prems(3) have no_nil: "None \<notin> set (walk_children (h c))"
    and pf: "\<forall>d\<in>set ?ws. panic_free j h d"
    by (simp_all add: list_all_iff)
  from Suc.prems(4) obtain k2 where k: "k = Suc k2" and jk: "j \<le> k2" by (cases k) simp_all
  from ys Suc.prems(2) have cW: "c \<in> W" by simp
  have visit: "call_append m (Some c) (cs, W) = Returns (cs, W)"
    using call_append_Returns [where m = m and r = "Some c" and V = W and cs = cs, OF seen [OF cW]] by simp
  have loop: "for_each (Walk k2 h (inspect_fn m)) (walk_children (h c)) (cs, W) =
      Returns (cs, W)"
  proof (rule for_each_same)
    fix r assume r: "r \<in> set (walk_children (h c))"
    with no_nil obtain d where d: "r = Some d" by (cases r) auto
    with r have dw: "d \<in> set ?ws" by (simp add: in_addrs)
    with nn obtain zs where zs: "preorder j h d = Some zs" by auto
    with dw ys have "set zs \<subseteq> set ys" by auto
    with Suc.prems(2) have "set zs \<subseteq> W" by simp
    from Suc.IH [OF zs this _ jk] pf dw d
    show "Walk k2 h (inspect_fn m) r (cs, W) = Returns (cs, W)" by simp
  qed
  show ?case unfolding k by (simp add: visit loop)
qed

lemma Walk_fresh_total:
  assumes seen: "\<And>b W. b \<in> W \<Longrightarrow> m (Some b) W = Returns (None, W)"
    and spec: "m (Some d) W = Returns (Some t, W \<union> set ys)"
    and pre: "preorder j h d = Some ys"
    and pf: "panic_free j h d"
    and jk: "j \<le> k"
  shows "Walk k h (inspect_fn m) (Some d) (cs, W) = Returns (cs @ [t], W \<union> set ys)"
proof -
  let ?ws = "addrs (walk_children (h d))"
  from pre obtain j' where j: "j = Suc j'"
    and nn: "\<forall>c\<in>set ?ws. preorder j' h c \<noteq> None"
    and ys: "ys = d # concat (map (\<lambda>c. the (preorder j' h c)) ?ws)"
    by (rule preorder_Suc)
  from pf j have no_nil: "None \<notin> set (walk_children (h d))"
    and pfc: "\<forall>c\<in>set ?ws. panic_free j' h c"
    by (simp_all add: list_all_iff)
  from jk j obtain k2 where k: "k = Suc k2" and jk2: "j' \<le> k2" by (cases k) simp_all
  have visit: "call_append m (Some d) (cs, W) = Returns (cs @ [t], W \<union> set ys)"
    using call_append_Returns [where m = m and r = "Some d" and V = W and cs = cs, OF spec] by simp
  have loop: "for_each (Walk k2 h (inspect_fn m)) (walk_children (h d))
      (cs @ [t], W \<union> set ys) = Returns (cs @ [t], W \<union> set ys)"
  proof (rule for_each_same)
    fix r assume r: "r \<in> set (walk_children (h d))"
    with no_nil obtain c where c: "r = Some c" by (cases r) auto
    with r have cw: "c \<in> set ?ws" by (simp add: in_addrs)
    with nn obtain zs where zs: "preorder j' h c = Some zs" by auto
    with cw ys have "set zs \<subseteq> W \<union> set ys" by auto
    from Walk_visited_total [where m = m, OF seen zs this _ jk2] pfc cw c
    show "Walk k2 h (inspect_fn m) r (cs @ [t], W \<union> set ys) =
        Returns (cs @ [t], W \<union> set ys)" by simp
  qed
  show ?thesis unfolding k by (simp add: visit loop)
qed

lemma for_each_call_append_total:
  assumes spec: "\<And>c W. c \<in> C \<Longrightarrow> sub c \<inter> W = {} \<Longrightarrow> m (Some c) W = Returns (Some (T c), W \<union> sub c)"
    and none: "\<And>W. m None W = Returns (None, W)"
  shows "set (addrs rs) \<subseteq> C \<Longrightarrow> distinct (addrs rs) \<Longrightarrow>
     \<forall>c\<in>set (addrs rs). sub c \<inter> W = {} \<Longrightarrow>
     \<forall>c\<in>set (addrs rs). \<forall>d\<in>set (addrs rs). c \<noteq> d \<longrightarrow> sub c \<inter> sub d = {} \<Longrightarrow>
     for_each (call_append m) rs (cs, W) =
       Returns (cs @ map T (addrs rs), W \<union> \<Union> (sub ` set (addrs rs)))"
proof (induction rs arbitrary: cs W)
  case Nil
  then show ?case by simp
next
  case (Cons r rs)
  show ?case
  proof (cases r)
    case None
    with Cons.IH [of W cs] Cons.prems
      call_append_Returns [where m = m and r = None and V = W and cs = cs, OF none]
    show ?thesis by simp
  next
    case (Some c)
    with Cons.prems have c: "c \<in> C" "sub c \<inter> W = {}" "c \<notin> set (addrs rs)" by simp_all
    have "\<forall>d\<in>set (addrs rs). sub d \<inter> (W \<union> sub c) = {}"
      using Cons.prems(3,4) Some c(3) by auto
    with Cons.IH [of "W \<union> sub c" "cs @ [T c]"] Cons.prems Some
    have "for_each (call_append m) rs (cs @ [T c], W \<union> sub c) =
        Returns ((cs @ [T c]) @ map T (addrs rs), (W \<union> sub c) \<union> \<Union> (sub ` set (addrs rs)))"
      by simp
    with Some call_append_Returns [where m = m and r = "Some c" and V = W and cs = cs,
        OF spec [OF c(1,2)]]
    show ?thesis
      by (simp add: Un_assoc)
  qed
qed

lemma for_each_Walk_total:
  assumes vis: "\<And>d cs W. d \<in> D \<Longrightarrow> sub d \<subseteq> W \<Longrightarrow> Walk k h f (Some d) (cs, W) = Returns (cs, W)"
    and new: "\<And>d cs W. d \<in> D \<Longrightarrow> sub d \<inter> W = {} \<Longrightarrow>
      Walk k h f (Some d) (cs, W) = Returns (cs @ [T d], W \<union> sub d)"
    and nonempty: "\<And>d. d \<in> D \<Longrightarrow> sub d \<noteq> {}"
  shows "None \<notin> set rs \<Longrightarrow> set (addrs rs) \<subseteq> D \<Longrightarrow> distinct (addrs rs) \<Longrightarrow>
     \<forall>d\<in>set (addrs rs). sub d \<subseteq> W \<or> sub d \<inter> W = {} \<Longrightarrow>
     \<forall>c\<in>set (addrs rs). \<forall>d\<in>set (addrs rs). c \<noteq> d \<longrightarrow> sub c \<inter> sub d = {} \<Longrightarrow>
     for_each (Walk k h f) rs (cs, W) =
       Returns (cs @ map T (filter (\<lambda>d. \<not> sub d \<subseteq> W) (addrs rs)), W \<union> \<Union> (sub ` set (addrs rs)))"
proof (induction rs arbitrary: cs W)
  case Nil
  then show ?case by simp
next
  case (Cons r rs)
  from Cons.prems(1) obtain d where r: "r = Some d" by (cases r) auto
  with Cons.prems have d: "d \<in> D" "d \<notin> set (addrs rs)" "set (addrs rs) \<subseteq> D" "distinct (addrs rs)"
    and nil: "None \<notin> set rs"
    and dW: "sub d \<subseteq> W \<or> sub d \<inter> W = {}"
    and rest: "\<forall>e\<in>set (addrs rs). sub e \<subseteq> W \<or> sub e \<inter> W = {}"
    and disj: "\<forall>e\<in>set (addrs rs). sub d \<inter> sub e = {}"
    and pw: "\<forall>c\<in>set (addrs rs). \<forall>e\<in>set (addrs rs). c \<noteq> e \<longrightarrow> sub c \<inter> sub e = {}"
    by auto
  show ?case
  proof (cases "sub d \<subseteq> W")
    case True
    from Cons.IH [OF nil d(3,4) rest pw, of cs] vis [OF d(1) True, of cs] r True
    show ?thesis by auto
  next
    case False
    with dW have fresh: "sub d \<inter> W = {}" by simp
    have rest': "\<forall>e\<in>set (addrs rs). sub e \<subseteq> W \<union> sub d \<or> sub e \<inter> (W \<union> sub d) = {}"
      using rest disj by blast
    have same: "\<not> sub e \<subseteq> W \<union> sub d \<longleftrightarrow> \<not> sub e \<subseteq> W" if "e \<in> set (addrs rs)" for e
    proof -
      from that disj have "sub d \<inter> sub e = {}" by simp
      moreover from that d(3) have "sub e \<noteq> {}" by (auto dest: nonempty)
      ultimately show ?thesis using rest that by blast
    qed
    then have filt: "filter (\<lambda>e. \<not> sub e \<subseteq> W \<union> sub d) (addrs rs) = filter (\<lambda>e. \<not> sub e \<subseteq> W) (addrs rs)"
      by (intro filter_cong [OF refl]) simp
    from Cons.IH [OF nil d(3,4) rest' pw, of "cs @ [T d]"] filt
    have "for_each (Walk k h f) rs (cs @ [T d], W \<union> sub d) =
        Returns ((cs @ [T d]) @ map T (filter (\<lambda>e. \<not> sub e \<subseteq> W) (addrs rs)),
                 (W \<union> sub d) \<union> \<Union> (sub ` set (addrs rs)))"
      by simp
    with new [OF d(1) fresh, of cs] r False show ?thesis by (simp add: Un_assoc)
  qed
qed

lemma marshalAST_tree_total:
  "preorder j h a = Some xs \<Longrightarrow> distinct xs \<Longrightarrow> set xs \<inter> V = {} \<Longrightarrow> panic_free j h a \<Longrightarrow>
   j < k \<Longrightarrow>
   \<exists>t. expected j h a = Some t \<and> marshalAST k h (Some a) V = Returns (Some t, V \<union> set xs)"
proof (induction j arbitrary: a xs V k)
  case 0
  then show ?case by simp
next
  case (Suc j)
  let ?ws = "addrs (walk_children (h a))"
  let ?ms = "addrs (marshal_children (h a))"
  let ?pre = "\<lambda>c. the (preorder j h c)"
  let ?sub = "\<lambda>c. set (the (preorder j h c))"
  let ?T = "\<lambda>c. the (expected j h c)"
  from Suc.prems(1) have nn: "\<forall>c\<in>set ?ws. preorder j h c \<noteq> None"
    and xs: "xs = a # concat (map ?pre ?ws)"
    unfolding preorder_Suc_iff by blast+
  have root: "\<forall>c\<in>set ?ws. c \<in> set (?pre c)"
  proof
    fix c assume "c \<in> set ?ws"
    with nn obtain ys where "preorder j h c = Some ys" by auto
    with preorder_root [OF this] show "c \<in> set (?pre c)" by simp
  qed
  from Suc.prems(2) xs have dc: "distinct (concat (map ?pre ?ws))" and a_out: "\<forall>c\<in>set ?ws. a \<notin> ?sub c"
    by auto
  from distinct_concat_map [OF dc root]
  have dw: "distinct ?ws" and dsub: "\<forall>c\<in>set ?ws. distinct (?pre c)"
    and pw: "\<forall>c\<in>set ?ws. \<forall>d\<in>set ?ws. c \<noteq> d \<longrightarrow> ?sub c \<inter> ?sub d = {}"
    by blast+
  from Suc.prems(3) xs have aV: "a \<notin> V" and subV: "\<forall>c\<in>set ?ws. ?sub c \<inter> V = {}"
    by auto
  have ms_ws: "set ?ms \<subseteq> set ?ws" by (rule marshal_subset_walk)
  have dm: "distinct ?ms" using dw by (rule marshal_distinct)
  from Suc.prems(4) obtain nm val cms where sf: "switch_fields h (h a) = Returns (nm, val, cms)"
    by (cases "switch_fields h (h a)") auto
  from Suc.prems(4) have no_nil: "None \<notin> set (walk_children (h a))"
    and pf: "\<forall>c\<in>set ?ws. panic_free j h c"
    by (simp_all add: list_all_iff)
  from Suc.prems(5) obtain k1 where k: "k = Suc k1" and jk1: "j < k1" by (cases k) simp_all
  from jk1 obtain k2 where k1: "k1 = Suc k2" and jk2: "j \<le> k2" by (cases k1) simp_all
  let ?m = "marshalAST k1 h"
  have spec: "expected j h c \<noteq> None \<and> ?m (Some c) W = Returns (Some (?T c), W \<union> ?sub c)"
    if "c \<in> set ?ws" "?sub c \<inter> W = {}" for c W
  proof -
    from that(1) nn obtain ys where ys: "preorder j h c = Some ys" by auto
    with that(1) dsub have d: "distinct ys" by auto
    from ys that(2) have i: "set ys \<inter> W = {}" by simp
    from that(1) pf have "panic_free j h c" by simp
    from Suc.IH [OF ys d i this jk1] ys show ?thesis by auto
  qed
  have seen: "?m (Some b) W = Returns (None, W)" if "b \<in> W" for b W
    using that unfolding k1 by simp
  have none: "?m None W = Returns (None, W)" for W
    unfolding k1 by simp
  let ?W1 = "insert a V \<union> \<Union> (?sub ` set ?ms)"
  have A: "for_each (call_append ?m) (marshal_children (h a)) ([], insert a V) =
      Returns ([] @ map ?T ?ms, ?W1)"
  proof (rule for_each_call_append_total [where C = "set ?ws" and sub = ?sub and T = ?T and m = ?m,
        OF _ _ ms_ws dm])
    show "\<forall>c\<in>set ?ms. ?sub c \<inter> insert a V = {}"
      using ms_ws subV a_out by auto
    show "\<forall>c\<in>set ?ms. \<forall>d\<in>set ?ms. c \<noteq> d \<longrightarrow> ?sub c \<inter> ?sub d = {}"
      using ms_ws pw by blast
  qed (use spec none in blast)+
  have inW1: "?sub d \<subseteq> ?W1 \<longleftrightarrow> d \<in> set ?ms" if "d \<in> set ?ws" for d
  proof
    assume "d \<in> set ?ms"
    then show "?sub d \<subseteq> ?W1" by blast
  next
    assume sub: "?sub d \<subseteq> ?W1"
    from that root have dd: "d \<in> ?sub d" by simp
    with sub have "d \<in> ?W1" by blast
    moreover from dd that a_out have "d \<noteq> a" by auto
    moreover from dd that subV have "d \<notin> V" by auto
    ultimately obtain c where c: "c \<in> set ?ms" "d \<in> ?sub c" by auto
    show "d \<in> set ?ms"
    proof (rule ccontr)
      assume "d \<notin> set ?ms"
      with c have "c \<noteq> d" by auto
      moreover from c(1) ms_ws have "c \<in> set ?ws" by auto
      ultimately have "?sub c \<inter> ?sub d = {}" using pw that by simp
      with c(2) dd show False by blast
    qed
  qed
  have B: "for_each (Walk k2 h (inspect_fn ?m)) (walk_children (h a)) (map ?T ?ms, ?W1) =
      Returns (map ?T ?ms @ map ?T (filter (\<lambda>d. \<not> ?sub d \<subseteq> ?W1) ?ws), ?W1 \<union> \<Union> (?sub ` set ?ws))"
  proof (rule for_each_Walk_total [where D = "set ?ws" and sub = ?sub and T = ?T,
        OF _ _ _ no_nil subset_refl dw _ pw])
    fix d cs W
    assume d: "d \<in> set ?ws" and W: "?sub d \<subseteq> W"
    from d nn obtain ys where ys: "preorder j h d = Some ys" by auto
    with W have "set ys \<subseteq> W" by simp
    from Walk_visited_total [where m = ?m, OF seen ys this _ jk2] pf d
    show "Walk k2 h (inspect_fn ?m) (Some d) (cs, W) = Returns (cs, W)" by simp
  next
    fix d cs W
    assume d: "d \<in> set ?ws" and W: "?sub d \<inter> W = {}"
    from d nn obtain ys where ys: "preorder j h d = Some ys" by auto
    from spec [OF d W] ys have sp: "?m (Some d) W = Returns (Some (?T d), W \<union> set ys)" by simp
    from d pf have "panic_free j h d" by simp
    from Walk_fresh_total [where m = ?m, OF seen sp ys this jk2] ys
    show "Walk k2 h (inspect_fn ?m) (Some d) (cs, W) = Returns (cs @ [?T d], W \<union> ?sub d)" by simp
  next
    fix d assume "d \<in> set ?ws"
    with root show "?sub d \<noteq> {}" by auto
  next
    show "\<forall>d\<in>set ?ws. ?sub d \<subseteq> ?W1 \<or> ?sub d \<inter> ?W1 = {}"
    proof
      fix d assume d: "d \<in> set ?ws"
      show "?sub d \<subseteq> ?W1 \<or> ?sub d \<inter> ?W1 = {}"
      proof (cases "d \<in> set ?ms")
        case True
        then show ?thesis by blast
      next
        case False
        have "?sub d \<inter> ?sub c = {}" if "c \<in> set ?ms" for c
        proof -
          from that False have ne: "d \<noteq> c" by auto
          from that ms_ws have cw: "c \<in> set ?ws" by auto
          from pw [rule_format, OF d cw ne] show ?thesis .
        qed
        then have x: "\<forall>c\<in>set ?ms. ?sub d \<inter> ?sub c = {}" by simp
        from d a_out have y: "a \<notin> ?sub d" by simp
        from d subV have z: "?sub d \<inter> V = {}" by simp
        from x y z have "?sub d \<inter> ?W1 = {}" by blast
        then show ?thesis ..
      qed
    qed
  qed
  have filt: "filter (\<lambda>d. \<not> ?sub d \<subseteq> ?W1) ?ws = filter (\<lambda>d. d \<notin> set ?ms) ?ws"
  proof (rule filter_cong [OF refl])
    fix d assume "d \<in> set ?ws"
    from inW1 [OF this] show "(\<not> ?sub d \<subseteq> ?W1) = (d \<notin> set ?ms)"
      by (rule arg_cong [where f = Not])
  qed
  have visit: "call_append ?m (Some a) (map ?T ?ms, ?W1) = Returns (map ?T ?ms, ?W1)"
    using call_append_Returns [where m = ?m and r = "Some a" and V = ?W1 and cs = "map ?T ?ms",
        OF seen] by simp
  have W: "Walk k1 h (inspect_fn ?m) (Some a) (map ?T ?ms, ?W1) =
      Returns (map ?T (child_order (h a)), ?W1 \<union> \<Union> (?sub ` set ?ws))"
    unfolding k1 Walk.simps inspect_fn_Some
    using visit B filt unfolding k1 by (simp add: child_order_def del: marshalAST.simps)
  have V': "?W1 \<union> \<Union> (?sub ` set ?ws) = V \<union> set xs"
    using ms_ws xs by auto
  have all: "\<forall>c\<in>set (child_order (h a)). expected j h c \<noteq> None"
  proof
    fix c assume "c \<in> set (child_order (h a))"
    with ms_ws have c: "c \<in> set ?ws" by (auto simp: child_order_def)
    have "?sub c \<inter> {} = {}" by simp
    from spec [OF c this] show "expected j h c \<noteq> None" by simp
  qed
  then have th: "those (map (expected j h) (child_order (h a))) = Some (map ?T (child_order (h a)))"
    unfolding those_map_Some by simp
  let ?t = "ASTNode nm (type_name (h a)) (map ?T (child_order (h a))) val cms"
  from sf th have e: "expected (Suc j) h a = Some ?t" by simp
  have "marshalAST k h (Some a) V = Returns (Some ?t, V \<union> set xs)"
    unfolding k marshalAST.simps using aV sf A W V' by simp
  with e show ?case by blast
qed

section \<open>More stack changes no result\<close>

lemma below_refl: "below x x"
  by (simp add: below_def)

lemma below_OutOfFuel: "below OutOfFuel y"
  by (simp add: below_def)

lemma bind_below:
  assumes "below m m'" and "\<And>x. below (g x) (g' x)"
  shows "below (bind m g) (bind m' g')"
proof (cases "m = OutOfFuel")
  case True
  then show ?thesis by (simp add: below_def)
next
  case False
  with assms(1) have "m' = m" by (simp add: below_def)
  with assms(2) show ?thesis by (cases m) (simp_all add: below_refl)
qed

lemma for_each_below:
  assumes "\<And>x s. below (g x s) (g' x s)"
  shows "below (for_each g xs s) (for_each g' xs s)"
proof (induction xs arbitrary: s)
  case Nil
  show ?case by (simp add: below_refl)
next
  case (Cons x xs)
  show ?case by (simp del: bind_Returns_right) (rule bind_below [OF assms Cons.IH])
qed

lemma Walk_below:
  assumes "\<And>r s. below (f r s) (f' r s)"
  shows "below (Walk k h f r s) (Walk (Suc k) h f' r s)"
proof (induction k arbitrary: r s)
  case 0
  show ?case by (simp add: below_def)
next
  case (Suc k)
  have loop: "below (for_each (Walk k h f) xs s) (for_each (Walk (Suc k) h f') xs s)" for xs s
    by (rule for_each_below) (rule Suc.IH)
  have "below (bind (f r s) (\<lambda>s1. case r of None \<Rightarrow> Panics NilPointer
            | Some a \<Rightarrow> bind (for_each (Walk k h f) (walk_children (h a)) s1) (f None)))
          (bind (f' r s) (\<lambda>s1. case r of None \<Rightarrow> Panics NilPointer
            | Some a \<Rightarrow> bind (for_each (Walk (Suc k) h f') (walk_children (h a)) s1) (f' None)))"
  proof (rule bind_below [OF assms])
    fix s1
    show "below (case r of None \<Rightarrow> Panics NilPointer
            | Some a \<Rightarrow> bind (for_each (Walk k h f) (walk_children (h a)) s1) (f None))
          (case r of None \<Rightarrow> Panics NilPointer
            | Some a \<Rightarrow> bind (for_each (Walk (Suc k) h f') (walk_children (h a)) s1) (f' None))"
    proof (cases r)
      case None
      then show ?thesis by (simp add: below_refl)
    next
      case (Some a)
      then show ?thesis using bind_below [OF loop assms] by simp
    qed
  qed
  then show ?case by (simp only: Walk.simps)
qed

lemma call_append_below:
  assumes "\<And>r V. below (m r V) (m' r V)"
  shows "below (call_append m r s) (call_append m' r s)"
  unfolding call_append_def
  by (cases s) (simp, rule bind_below [OF assms below_refl])

lemma inspect_fn_below:
  assumes "\<And>r V. below (m r V) (m' r V)"
  shows "below (inspect_fn m r s) (inspect_fn m' r s)"
  using call_append_below [of m m', OF assms] by (cases r) (simp_all add: below_refl)

lemma marshalAST_below: "below (marshalAST k h r V) (marshalAST (Suc k) h r V)"
proof (induction k arbitrary: r V)
  case 0
  show ?case by (simp add: below_def)
next
  case (Suc k)
  let ?m = "marshalAST k h" and ?m' = "marshalAST (Suc k) h"
  have loop: "below (for_each (call_append ?m) xs s) (for_each (call_append ?m') xs s)" for xs s
    by (rule for_each_below) (rule call_append_below, rule Suc.IH)
  have walk: "below (Walk k h (inspect_fn ?m) r s) (Walk (Suc k) h (inspect_fn ?m') r s)" for r s
    by (rule Walk_below) (rule inspect_fn_below, rule Suc.IH)
  show ?case
  proof (cases r)
    case None
    then show ?thesis by (simp add: below_refl)
  next
    case (Some a)
    show ?thesis
    proof (cases "a \<in> V")
      case True
      with Some show ?thesis by (simp add: below_refl)
    next
      case False
      have "below
          (bind (switch_fields h (h a)) (\<lambda>(nm, val, cms).
             bind (for_each (call_append ?m) (marshal_children (h a)) ([], insert a V)) (\<lambda>s1.
             bind (Walk k h (inspect_fn ?m) (Some a) s1) (\<lambda>(cs, V').
             Returns (Some (ASTNode nm (type_name (h a)) cs val cms), V')))))
          (bind (switch_fields h (h a)) (\<lambda>(nm, val, cms).
             bind (for_each (call_append ?m') (marshal_children (h a)) ([], insert a V)) (\<lambda>s1.
             bind (Walk (Suc k) h (inspect_fn ?m') (Some a) s1) (\<lambda>(cs, V').
             Returns (Some (ASTNode nm (type_name (h a)) cs val cms), V')))))"
      proof (rule bind_below [OF below_refl])
        fix x :: "string \<times> string option \<times> string list"
        obtain nm val cms where x: "x = (nm, val, cms)" by (cases x)
        have inner: "below (bind (Walk k h (inspect_fn ?m) (Some a) s1) G)
            (bind (Walk (Suc k) h (inspect_fn ?m') (Some a) s1) G)"
          for s1 and G :: "ASTNode list \<times> 'a set \<Rightarrow> (ASTNode option \<times> 'a set) outcome"
          by (rule bind_below [OF walk below_refl])
        have "below
            (bind (for_each (call_append ?m) (marshal_children (h a)) ([], insert a V)) (\<lambda>s1.
               bind (Walk k h (inspect_fn ?m) (Some a) s1) G))
            (bind (for_each (call_append ?m') (marshal_children (h a)) ([], insert a V)) (\<lambda>s1.
               bind (Walk (Suc k) h (inspect_fn ?m') (Some a) s1) G))"
          for G :: "ASTNode list \<times> 'a set \<Rightarrow> (ASTNode option \<times> 'a set) outcome"
          by (rule bind_below [OF loop inner])
        then show "below
            (case x of (nm, val, cms) \<Rightarrow>
               bind (for_each (call_append ?m) (marshal_children (h a)) ([], insert a V)) (\<lambda>s1.
               bind (Walk k h (inspect_fn ?m) (Some a) s1) (\<lambda>(cs, V').
               Returns (Some (ASTNode nm (type_name (h a)) cs val cms), V'))))
            (case x of (nm, val, cms) \<Rightarrow>
               bind (for_each (call_append ?m') (marshal_children (h a)) ([], insert a V)) (\<lambda>s1.
               bind (Walk (Suc k) h (inspect_fn ?m') (Some a) s1) (\<lambda>(cs, V').
               Returns (Some (ASTNode nm (type_name (h a)) cs val cms), V'))))"
          unfolding x prod.case .
      qed
      with Some False show ?thesis by (simp only: marshalAST.simps option.case if_False)
    qed
  qed
qed

lemma marshalAST_fuel_mono:
  assumes "marshalAST k h r V \<noteq> OutOfFuel"
  shows "marshalAST (k + d) h r V = marshalAST k h r V"
proof (induction d)
  case 0
  show ?case by simp
next
  case (Suc d)
  from marshalAST_below [of "k + d" h r V] Suc.IH assms
  show ?case by (simp add: below_def del: marshalAST.simps)
qed

section \<open>The walk over a folder\<close>

lemma filepath_Walk_append:
  "filepath_Walk fn pre w = (Returns None, w1) \<Longrightarrow>
   filepath_Walk fn (pre @ es) w = filepath_Walk fn es w1"
proof (induction pre arbitrary: w)
  case Nil
  then show ?case by simp
next
  case (Cons e pre)
  obtain r w' where f: "fn e w = (r, w')" by (cases "fn e w")
  with Cons.prems have r: "r = Returns None"
    by (auto split: outcome.splits option.splits)
  with f Cons.prems Cons.IH [of w'] show ?case by simp
qed

section \<open>Runs on a copy of the input at other addresses\<close>

lemma opt_map: "opt (map_option f r) = map (map_option f) (opt r)"
  by (cases r) (simp_all add: opt_def)

lemma type_name_map: "type_name (map_node f n) = type_name n"
proof (cases n)
  case (Expr e)
  then show ?thesis by (cases e) simp_all
next
  case (TypeExpr t)
  then show ?thesis by (cases t) simp_all
next
  case (Stmt s)
  then show ?thesis by (cases s) simp_all
next
  case (Decl d)
  then show ?thesis by (cases d) simp_all
qed simp_all

lemma marshal_children_map: "marshal_children (map_node f n) = map (map_option f) (marshal_children n)"
proof (cases n)
  case (Expr e)
  then show ?thesis by (cases e) (simp_all add: opt_map)
next
  case (TypeExpr t)
  then show ?thesis by (cases t) (simp_all add: opt_map)
next
  case (Stmt s)
  then show ?thesis by (cases s) (simp_all add: opt_map)
next
  case (Decl d)
  then show ?thesis by (cases d) (simp_all add: opt_map)
qed (simp_all add: opt_map)

lemma walk_children_map: "walk_children (map_node f n) = map (map_option f) (walk_children n)"
proof (cases n)
  case (Expr e)
  then show ?thesis by (cases e) (simp_all add: opt_map)
next
  case (TypeExpr t)
  then show ?thesis by (cases t) (simp_all add: opt_map)
next
  case (Stmt s)
  then show ?thesis by (cases s) (simp_all add: opt_map)
next
  case (Decl d)
  then show ?thesis by (cases d) (simp_all add: opt_map)
qed (simp_all add: opt_map)

lemma is_Ident_map: "map_node f n = Expr (Ident s) \<longleftrightarrow> n = Expr (Ident s)"
proof (cases n)
  case (Expr e)
  then show ?thesis by (cases e) simp_all
qed simp_all

lemma ident_name_map:
  assumes "\<And>a. hb (f a) = map_node f (ha a)"
  shows "ident_name hb (map_option f r) = ident_name ha r"
proof (cases r)
  case None
  then show ?thesis by (simp add: ident_name_def)
next
  case (Some a)
  show ?thesis
  proof (cases "\<exists>s. ha a = Expr (Ident s)")
    case True
    then show ?thesis using Some assms by (auto simp: ident_name_def)
  next
    case False
    then have 1: "(case ha a of Expr (Ident s) \<Rightarrow> Returns s | _ \<Rightarrow> Panics NilPointer) = Panics NilPointer"
      by (auto split: node.splits expr.splits)
    from False have "\<nexists>s. map_node f (ha a) = Expr (Ident s)" by (simp add: is_Ident_map)
    then have 2: "(case map_node f (ha a) of Expr (Ident s) \<Rightarrow> Returns s | _ \<Rightarrow> Panics NilPointer) = Panics NilPointer"
      by (auto split: node.splits expr.splits)
    from 1 2 Some assms show ?thesis by (simp add: ident_name_def)
  qed
qed

lemma switch_fields_map:
  assumes "\<And>a. hb (f a) = map_node f (ha a)"
  shows "switch_fields hb (map_node f n) = switch_fields ha n"
proof (cases n)
  case (Expr e)
  then show ?thesis by (cases e) (simp_all add: switch_fields_def)
next
  case (Decl d)
  then show ?thesis
    by (cases d) (simp_all add: switch_fields_def ident_name_map [where f = f and ha = ha and hb = hb, OF assms])
next
  case (File doc nm decls)
  then show ?thesis by (simp add: switch_fields_def ident_name_map [where f = f and ha = ha and hb = hb, OF assms])
qed (simp_all add: switch_fields_def)

lemma bind_map_outcome: "bind (map_outcome f m) g = bind m (\<lambda>x. g (f x))"
  by (cases m) simp_all

lemma map_outcome_bind: "map_outcome f (bind m g) = bind m (\<lambda>x. map_outcome f (g x))"
  by (cases m) simp_all

lemma for_each_sim:
  assumes "\<And>x s. g2 (f x) (p s) = map_outcome p (g1 x s)"
  shows "for_each g2 (map f xs) (p s) = map_outcome p (for_each g1 xs s)"
proof (induction xs arbitrary: s)
  case Nil
  show ?case by simp
next
  case (Cons x xs)
  then show ?case by (simp add: assms bind_map_outcome map_outcome_bind)
qed

lemma Walk_sim:
  assumes copy: "\<And>a. hb (f a) = map_node f (ha a)"
    and vis: "\<And>r s. f2 (map_option f r) (p s) = map_outcome p (f1 r s)"
  shows "Walk k hb f2 (map_option f r) (p s) = map_outcome p (Walk k ha f1 r s)"
proof (induction k arbitrary: r s)
  case 0
  show ?case by simp
next
  case (Suc k)
  have nil: "f2 None (p s) = map_outcome p (f1 None s)" for s
    using vis [of None s] by simp
  have loop: "for_each (Walk k hb f2) (map (map_option f) rs) (p s) =
      map_outcome p (for_each (Walk k ha f1) rs s)" for rs s
    by (rule for_each_sim) (rule Suc.IH)
  show ?case
  proof (cases r)
    case None
    then show ?thesis by (simp add: nil bind_map_outcome map_outcome_bind)
  next
    case (Some a)
    then show ?thesis
      using vis [of "Some a" s]
      by (simp add: copy walk_children_map loop nil bind_map_outcome map_outcome_bind)
  qed
qed

lemma call_append_sim:
  assumes "\<And>r V. m2 (map_option f r) (f ` V) = map_outcome (apsnd ((`) f)) (m1 r V)"
  shows "call_append m2 (map_option f r) (apsnd ((`) f) s) = map_outcome (apsnd ((`) f)) (call_append m1 r s)"
  by (cases s)
    (simp add: call_append_def assms bind_map_outcome map_outcome_bind split_def
      cong: option.case_cong)

lemma inspect_fn_sim:
  assumes "\<And>r V. m2 (map_option f r) (f ` V) = map_outcome (apsnd ((`) f)) (m1 r V)"
  shows "inspect_fn m2 (map_option f r) (apsnd ((`) f) s) = map_outcome (apsnd ((`) f)) (inspect_fn m1 r s)"
  using call_append_sim [of m2 f m1 r s, OF assms] by (cases r) simp_all

lemma marshalAST_rename:
  assumes inj: "inj f" and copy: "\<And>a. hb (f a) = map_node f (ha a)"
  shows "marshalAST k hb (map_option f r) (f ` V) = map_outcome (apsnd ((`) f)) (marshalAST k ha r V)"
proof (induction k arbitrary: r V)
  case 0
  show ?case by simp
next
  case (Suc k)
  show ?case
  proof (cases r)
    case None
    then show ?thesis by simp
  next
    case (Some a)
    have mem: "f a \<in> f ` V \<longleftrightarrow> a \<in> V" using inj by (simp add: inj_image_mem_iff)
    have loop: "for_each (call_append (marshalAST k hb)) (map (map_option f) rs) (apsnd ((`) f) s) =
        map_outcome (apsnd ((`) f)) (for_each (call_append (marshalAST k ha)) rs s)" for rs s
      by (rule for_each_sim) (rule call_append_sim, rule Suc.IH)
    have walk: "Walk k hb (inspect_fn (marshalAST k hb)) (map_option f r) (apsnd ((`) f) s) =
        map_outcome (apsnd ((`) f)) (Walk k ha (inspect_fn (marshalAST k ha)) r s)" for r s
      by (rule Walk_sim [where f = f and ha = ha and hb = hb, OF copy])
        (rule inspect_fn_sim, rule Suc.IH)
    have start: "([], insert (f a) (f ` V)) = apsnd ((`) f) ([], insert a V)" by simp
    show ?thesis
    proof (cases "a \<in> V")
      case True
      with Some mem show ?thesis by simp
    next
      case False
      with mem have nm: "f a \<notin> f ` V" by simp
      show ?thesis
        unfolding Some option.map marshalAST.simps option.case if_not_P [OF nm] if_not_P [OF False]
          copy switch_fields_map [where f = f and ha = ha and hb = hb, OF copy] type_name_map marshal_children_map start loop
        using walk [of "Some a"]
        by (simp add: bind_map_outcome map_outcome_bind split_def)
    qed
  qed
qed

section \<open>Function declarations\<close>

lemma tree_children_distinct:
  assumes "preorder (Suc j) h a = Some xs" and "distinct xs"
  shows "distinct (addrs (walk_children (h a)))"
proof -
  let ?ws = "addrs (walk_children (h a))"
  let ?pre = "\<lambda>c. the (preorder j h c)"
  from assms(1) have nn: "\<forall>c\<in>set ?ws. preorder j h c \<noteq> None"
    and xs: "xs = a # concat (map ?pre ?ws)"
    unfolding preorder_Suc_iff by blast+
  have root: "\<forall>c\<in>set ?ws. c \<in> set (?pre c)"
  proof
    fix c assume "c \<in> set ?ws"
    with nn obtain ys where "preorder j h c = Some ys" by auto
    with preorder_root [OF this] show "c \<in> set (?pre c)" by simp
  qed
  from assms(2) xs have "distinct (concat (map ?pre ?ws))" by simp
  from distinct_concat_map [OF this root] show ?thesis by blast
qed

lemma ident_name_Returns:
  assumes "ident_name h r = Returns s"
  obtains a where "r = Some a" and "h a = Expr (Ident s)"
  using assms by (auto simp: ident_name_def split: option.splits node.splits expr.splits)

lemma expected_Ident:
  assumes "h a = Expr (Ident s)" and "expected j h a \<noteq> None"
  shows "expected j h a = Some (ASTNode [] ''*ast.Ident'' [] (Some s) [])"
proof -
  obtain j' where "j = Suc j'" using assms(2) by (cases j) simp_all
  with assms(1) show ?thesis by (simp add: switch_fields_def child_order_def)
qed

lemma expected_FuncDecl:
  assumes "h a = Decl (FuncDecl doc (Some r) nm (Some ty) (Some b))"
    and "distinct (addrs (walk_children (h a)))"
    and "expected (Suc j) h a = Some t"
  shows "\<exists>s. ident_name h nm = Returns s \<and> Name t = s \<and>
           map Some (Children t) =
             map (expected j h) ([r, ty, b] @ (case doc of None \<Rightarrow> [] | Some d \<Rightarrow> [d])) @
             [Some (ASTNode [] ''*ast.Ident'' [] (Some s) [])]"
proof -
  from assms(1,3) obtain s where s: "ident_name h nm = Returns s"
    by (cases "ident_name h nm") (simp_all add: switch_fields_def)
  then obtain na where nm: "nm = Some na" and na: "h na = Expr (Ident s)"
    by (rule ident_name_Returns)
  let ?ds = "case doc of None \<Rightarrow> [] | Some d \<Rightarrow> [d]"
  from assms(1,2) nm have d: "distinct (?ds @ [r, na, ty, b])" by simp
  then have co: "child_order (h a) = [r, ty, b] @ ?ds @ [na]"
    using assms(1) nm by (auto simp: child_order_def split: option.splits)
  from assms(1,3) s obtain cs where
    cs: "those (map (expected j h) (child_order (h a))) = Some cs"
    and t: "t = ASTNode s ''*ast.FuncDecl'' cs None []"
    by (auto simp: switch_fields_def)
  from cs have all: "\<forall>c\<in>set (child_order (h a)). expected j h c \<noteq> None"
    and cs': "cs = map (\<lambda>c. the (expected j h c)) (child_order (h a))"
    unfolding those_map_Some by simp_all
  from all cs' have "map Some cs = map (expected j h) (child_order (h a))" by simp
  moreover from all co have "expected j h na \<noteq> None" by simp
  with na have "expected j h na = Some (ASTNode [] ''*ast.Ident'' [] (Some s) [])"
    by (rule expected_Ident)
  ultimately have "map Some cs =
      map (expected j h) ([r, ty, b] @ ?ds) @ [Some (ASTNode [] ''*ast.Ident'' [] (Some s) [])]"
    using co by simp
  with s t show ?thesis by simp
qed

section \<open>The claims\<close>

subsection \<open>C1: one record per identity\<close>

text \<open>
  C1. In a run of \<^verbatim>\<open>marshalAST\<close> that returns, every identity yields at most one record.
  A call on an identity not yet in the visited set records it and returns a record; a
  call on nil or on a recorded identity returns nil and leaves the set as it is. The
  set only grows, so a recorded identity stays recorded for the rest of the run, and
  the records of the returned tree are exactly as many as the identities the call has
  added to the set. With a fresh set, the tree has one record per visited identity.
\<close>

theorem marshalAST_single_emission:
  assumes "marshalAST k h r V = Returns (res, V')"
  shows "V \<subseteq> V' \<and> finite (V' - V) \<and> node_count res = card (V' - V) \<and>
         (case r of
            None \<Rightarrow> res = None \<and> V' = V
          | Some a \<Rightarrow> a \<in> V' \<and> (if a \<in> V then res = None \<and> V' = V else res \<noteq> None))"
proof -
  from marshalAST_counts [OF assms] obtain S where
    S: "V' = V \<union> S" "S \<inter> V = {}" "finite S" "node_count res = card S"
    by blast
  then have diff: "V' - V = S" by blast
  have "case r of
          None \<Rightarrow> res = None \<and> V' = V
        | Some a \<Rightarrow> a \<in> V' \<and> (if a \<in> V then res = None \<and> V' = V else res \<noteq> None)"
  proof (cases r)
    case None
    with marshalAST_seen [OF assms] show ?thesis by simp
  next
    case (Some a)
    show ?thesis
    proof (cases "a \<in> V")
      case True
      with marshalAST_seen [OF assms] Some show ?thesis by simp
    next
      case False
      from marshalAST_grows [OF assms [unfolded Some] False]
      have "res \<noteq> None" and "a \<in> V'" by (auto simp: grows_def)
      with False Some show ?thesis by simp
    qed
  qed
  with S diff show ?thesis by simp
qed

text \<open>
  On \<^verbatim>\<open>x + x\<close> with a shared operand the second encounter of the identifier adds
  nothing: two identities, two records.
\<close>

theorem marshalAST_single_emission_witness:
  "marshalAST 3 shared_heap (Some 0) {} =
     Returns (Some (ASTNode [] ''*ast.BinaryExpr'' [ASTNode [] ''*ast.Ident'' [] (Some ''x'') []] None []),
              {0, 1}) \<and>
   node_count (Some (ASTNode [] ''*ast.BinaryExpr'' [ASTNode [] ''*ast.Ident'' [] (Some ''x'') []] None [])) =
     card ({0, 1 :: nat} - {})"
proof -
  have m: "marshalAST 3 shared_heap (Some 0) {} =
     Returns (Some (ASTNode [] ''*ast.BinaryExpr'' [ASTNode [] ''*ast.Ident'' [] (Some ''x'') []] None []),
              {0, 1})"
    by (simp add: eval_nat_numeral shared_heap_def opt_def call_append_def switch_fields_def
        insert_commute)
  from marshalAST_single_emission [OF m] m show ?thesis by simp
qed

subsection \<open>C2: termination on cycles\<close>

text \<open>
  C2. The claim is that \<^verbatim>\<open>marshalAST\<close> terminates on every input with finitely many
  identities, cycles included. The visited set stops the recursion of the switch, but
  the closure given to \<^verbatim>\<open>ast.Inspect\<close> returns \<^verbatim>\<open>true\<close> for a visited node too, so
  \<^verbatim>\<open>ast.Walk\<close> descends into its children again. On a node that is its own child the
  walk never ends: the call exhausts every stack.
\<close>

theorem marshalAST_diverges_on_cycle:
  "marshalAST k cyclic_heap (Some 0) {} = OutOfFuel"
proof -
  have walk: "Walk j cyclic_heap (inspect_fn (marshalAST k' cyclic_heap)) (Some 0) (cs, V) = OutOfFuel"
    if "0 \<in> V" for j k' cs and V :: "nat set"
  proof (induction j)
    case 0
    show ?case by simp
  next
    case (Suc j)
    show ?case
      using that Suc.IH
      by (cases k') (simp_all add: call_append_def cyclic_heap_def)
  qed
  show ?thesis
  proof (cases k)
    case 0
    then show ?thesis by simp
  next
    case (Suc k')
    have "Walk k' cyclic_heap (inspect_fn (marshalAST k' cyclic_heap)) (Some 0) ([], {0}) = OutOfFuel"
      by (rule walk) simp
    with Suc show ?thesis
      by (cases k') (simp_all add: cyclic_heap_def switch_fields_def opt_def call_append_def)
  qed
qed

subsection \<open>C3: the shape of the output on a tree\<close>

text \<open>
  C3, as stated, fails: the children of a record are not only the records of the
  fields its switch case names. After the switch, \<^verbatim>\<open>ast.Inspect\<close> walks the node and
  appends a record for every node not yet visited. For \<^verbatim>\<open>[3]int\<close> the case of
  \<^verbatim>\<open>ArrayType\<close> names \<^verbatim>\<open>Elt\<close> alone, and the record has two children: the element type
  and then the length.
\<close>

theorem declared_children_counterexample:
  "marshalAST 3 array_heap (Some 0) {} =
     Returns (Some (ASTNode [] ''*ast.ArrayType''
                      [ASTNode [] ''*ast.Ident'' [] (Some ''int'') [],
                       ASTNode [] ''*ast.BasicLit'' [] (Some ''3'') []] None []), {0, 1, 2})
   \<and> marshal_children (array_heap 0) = [Some 2]"
  by (simp add: eval_nat_numeral array_heap_def opt_def call_append_def
      switch_fields_def insert_commute)

text \<open>
  C3, amended. On a finite tree without shared references (the nodes below the root,
  listed in walk order, are distinct), whatever \<^verbatim>\<open>marshalAST\<close> with a fresh visited set
  returns is the tree \<open>expected\<close>: every node has one record, and the children of a
  record are the records of the fields the node's switch case names, in the order of
  the case, followed by the records of the other non-nil fields \<^verbatim>\<open>ast.Walk\<close> descends
  into (\<^verbatim>\<open>Doc\<close>, \<^verbatim>\<open>Name\<close>, \<^verbatim>\<open>Tag\<close>, \<^verbatim>\<open>Comment\<close>, \<^verbatim>\<open>TypeParams\<close>, the \<^verbatim>\<open>Len\<close> of an array
  type, the \<^verbatim>\<open>Name\<close> and \<^verbatim>\<open>Decls\<close> of a file), in the order of the walk. And it does
  return that tree, having visited exactly the nodes of the input, when no node
  panics and the stack holds more nested calls than the tree is deep.
\<close>

theorem marshalAST_tree_shape:
  assumes "preorder j h a = Some xs" and "distinct xs"
  shows "(\<forall>k res V'. marshalAST k h (Some a) {} = Returns (res, V') \<longrightarrow>
            res = expected j h a \<and> res \<noteq> None) \<and>
         (panic_free j h a \<longrightarrow>
            (\<forall>k>j. \<exists>t. expected j h a = Some t \<and>
               marshalAST k h (Some a) {} = Returns (Some t, set xs)))"
proof (intro conjI allI impI)
  fix k res V'
  assume "marshalAST k h (Some a) {} = Returns (res, V')"
  from marshalAST_tree [OF assms Int_empty_right this]
  show "res = expected j h a" and "res \<noteq> None" by blast+
next
  fix k
  assume "panic_free j h a" and "j < k"
  from marshalAST_tree_total [OF assms Int_empty_right this]
  show "\<exists>t. expected j h a = Some t \<and> marshalAST k h (Some a) {} = Returns (Some t, set xs)"
    by simp
qed

text \<open>On \<^verbatim>\<open>[3]int\<close>: the element type first, as the case of \<^verbatim>\<open>ArrayType\<close> has it, then the length.\<close>

theorem marshalAST_tree_shape_witness:
  "preorder 2 array_heap 0 = Some [0, 1, 2] \<and> distinct [0, 1, 2 :: nat] \<and>
   panic_free 2 array_heap 0 \<and> (2 :: nat) < 3 \<and>
   expected 2 array_heap 0 =
     Some (ASTNode [] ''*ast.ArrayType''
             [ASTNode [] ''*ast.Ident'' [] (Some ''int'') [],
              ASTNode [] ''*ast.BasicLit'' [] (Some ''3'') []] None []) \<and>
   marshalAST 3 array_heap (Some 0) {} =
     Returns (Some (ASTNode [] ''*ast.ArrayType''
                      [ASTNode [] ''*ast.Ident'' [] (Some ''int'') [],
                       ASTNode [] ''*ast.BasicLit'' [] (Some ''3'') []] None []), set [0, 1, 2])"
proof -
  have p: "preorder 2 array_heap 0 = Some [0, 1, 2]"
    by (simp add: eval_nat_numeral array_heap_def)
  have d: "distinct [0, 1, 2 :: nat]" by simp
  have f: "panic_free 2 array_heap 0"
    by (simp add: eval_nat_numeral array_heap_def switch_fields_def opt_def)
  have e: "expected 2 array_heap 0 =
     Some (ASTNode [] ''*ast.ArrayType''
             [ASTNode [] ''*ast.Ident'' [] (Some ''int'') [],
              ASTNode [] ''*ast.BasicLit'' [] (Some ''3'') []] None [])"
    by (simp add: eval_nat_numeral array_heap_def switch_fields_def child_order_def opt_def)
  from marshalAST_tree_shape [OF p d] f
  have "\<exists>t. expected 2 array_heap 0 = Some t \<and>
      marshalAST 3 array_heap (Some 0) {} = Returns (Some t, set [0, 1, 2])"
    by simp
  with p d f e show ?thesis by simp
qed

subsection \<open>C4: the record of a function declaration\<close>

text \<open>
  C4, as stated, fails: the record of a function declaration with a receiver, a
  signature and a body has more than three children. \<^verbatim>\<open>ast.Inspect\<close> reaches the
  \<^verbatim>\<open>Name\<close> of the declaration, which the case of \<^verbatim>\<open>FuncDecl\<close> only reads for its text,
  and appends the identifier's record as a fourth child.
\<close>

theorem func_decl_children_counterexample:
  "marshalAST 4 func_heap (Some 0) {} =
     Returns (Some (ASTNode ''f'' ''*ast.FuncDecl''
                      [ASTNode [] ''*ast.FieldList'' [] None [],
                       ASTNode [] ''*ast.FuncType'' [ASTNode [] ''*ast.FieldList'' [] None []] None [],
                       ASTNode [] ''*ast.BlockStmt'' [ASTNode [] ''*ast.ReturnStmt'' [] None []] None [],
                       ASTNode [] ''*ast.Ident'' [] (Some ''f'') []] None []),
              {0, 1, 2, 3, 4, 5, 6})"
  by (simp add: eval_nat_numeral func_heap_def opt_def call_append_def
      switch_fields_def ident_name_def insert_commute)

text \<open>
  C4, amended. For a function declaration with a receiver, a signature and a body, in
  a tree without shared references, the record returned has \<^verbatim>\<open>name\<close> equal to the text
  of the function's identifier, and its children are, in order: the receiver's record,
  the signature's record, the body's record, then the record of the doc comment group
  if there is one, and last the record of the identifier, whose \<^verbatim>\<open>value\<close> is the
  function's name. So there are four or five children, and the first three are the
  ones the claim names. The call does return a record when no node panics and the
  stack holds more nested calls than the tree is deep.
\<close>

theorem func_decl_children:
  assumes "h a = Decl (FuncDecl doc (Some r) nm (Some ty) (Some b))"
    and "preorder (Suc j) h a = Some xs" and "distinct xs"
  shows "(\<forall>k res V'. marshalAST k h (Some a) {} = Returns (res, V') \<longrightarrow>
            (\<exists>s t. ident_name h nm = Returns s \<and> res = Some t \<and> Name t = s \<and>
               map Some (Children t) =
                 map (expected j h) ([r, ty, b] @ (case doc of None \<Rightarrow> [] | Some d \<Rightarrow> [d])) @
                 [Some (ASTNode [] ''*ast.Ident'' [] (Some s) [])])) \<and>
         (panic_free (Suc j) h a \<longrightarrow>
            (\<forall>k>Suc j. \<exists>t. marshalAST k h (Some a) {} = Returns (Some t, set xs)))"
proof (intro conjI allI impI)
  fix k res V'
  assume "marshalAST k h (Some a) {} = Returns (res, V')"
  from marshalAST_tree [OF assms(2,3) Int_empty_right this]
  obtain t where t: "res = Some t" and e: "expected (Suc j) h a = Some t" by auto
  from expected_FuncDecl [OF assms(1) tree_children_distinct [OF assms(2,3)] e] t
  show "\<exists>s t. ident_name h nm = Returns s \<and> res = Some t \<and> Name t = s \<and>
          map Some (Children t) =
            map (expected j h) ([r, ty, b] @ (case doc of None \<Rightarrow> [] | Some d \<Rightarrow> [d])) @
            [Some (ASTNode [] ''*ast.Ident'' [] (Some s) [])]"
    by blast
next
  fix k
  assume "panic_free (Suc j) h a" and "Suc j < k"
  from marshalAST_tree_total [OF assms(2,3) Int_empty_right this]
  show "\<exists>t. marshalAST k h (Some a) {} = Returns (Some t, set xs)" by auto
qed

text \<open>On the declaration of the counterexample, with stack for four nested calls.\<close>

theorem func_decl_children_witness:
  "func_heap 0 = Decl (FuncDecl None (Some 1) (Some 2) (Some 3) (Some 4)) \<and>
   preorder (Suc 2) func_heap 0 = Some [0, 1, 2, 3, 5, 4, 6] \<and>
   distinct [0, 1, 2, 3, 5, 4, 6 :: nat] \<and>
   panic_free (Suc 2) func_heap 0 \<and> Suc 2 < 4 \<and>
   (\<exists>s t. ident_name func_heap (Some 2) = Returns s \<and>
      marshalAST 4 func_heap (Some 0) {} = Returns (Some t, set [0, 1, 2, 3, 5, 4, 6]) \<and>
      Name t = s \<and>
      map Some (Children t) =
        map (expected 2 func_heap) [1, 3, 4] @ [Some (ASTNode [] ''*ast.Ident'' [] (Some s) [])])"
proof -
  have h: "func_heap 0 = Decl (FuncDecl None (Some 1) (Some 2) (Some 3) (Some 4))"
    by (simp add: func_heap_def)
  have p: "preorder (Suc 2) func_heap 0 = Some [0, 1, 2, 3, 5, 4, 6]"
    by (simp add: eval_nat_numeral func_heap_def)
  have d: "distinct [0, 1, 2, 3, 5, 4, 6 :: nat]" by simp
  have f: "panic_free (Suc 2) func_heap 0"
    by (simp add: eval_nat_numeral func_heap_def switch_fields_def ident_name_def opt_def)
  have l: "Suc 2 < (4 :: nat)" by simp
  from func_decl_children [OF h p d] f l
  obtain t where t: "marshalAST 4 func_heap (Some 0) {} = Returns (Some t, set [0, 1, 2, 3, 5, 4, 6])"
    by blast
  with func_decl_children [OF h p d]
  have "\<exists>s t'. ident_name func_heap (Some 2) = Returns s \<and> Some t = Some t' \<and> Name t' = s \<and>
      map Some (Children t') =
        map (expected 2 func_heap) ([1, 3, 4] @ (case None of None \<Rightarrow> [] | Some d \<Rightarrow> [d])) @
        [Some (ASTNode [] ''*ast.Ident'' [] (Some s) [])]"
    by blast
  with h p d f l t show ?thesis by auto
qed

subsection \<open>C5: a node kind without a case\<close>




subsection \<open>C6: determinism\<close>

text \<open>
  C6. Two runs on the same syntax tree write the same document. Between two runs the
  tree is the same but its nodes may lie at other addresses: \<open>f\<close> maps the address of
  each node in the first run to its address in the second, and the second heap holds
  at \<open>f a\<close> the struct the first holds at \<open>a\<close>, with its pointers moved by \<open>f\<close>. The
  identities are the only thing a run takes from the addresses, and the output does
  not depend on them: \<^verbatim>\<open>processFile\<close> ends in the same outcome and the same world, so
  the output file holds the same bytes.
\<close>

theorem processFile_deterministic:
  assumes "inj f" and "\<forall>a. hb (f a) = map_node f (ha a)"
    and "parse env p = Inr (ha, file)"
  shows "processFile (env\<lparr>parse := \<lambda>q. Inr (hb, f file)\<rparr>) fuel p w = processFile env fuel p w"
proof -
  have "marshalAST fuel hb (map_option f (Some file)) (f ` {}) =
      map_outcome (apsnd ((`) f)) (marshalAST fuel ha (Some file) {})"
    by (rule marshalAST_rename) (use assms in simp_all)
  then have "marshalAST fuel hb (Some (f file)) {} =
      map_outcome (apsnd ((`) f)) (marshalAST fuel ha (Some file) {})"
    by simp
  then show ?thesis
    using assms(3)
    by (cases "marshalAST fuel ha (Some file) {}")
      (auto simp: processFile_def Let_def split: option.splits)
qed

theorem processFile_deterministic_witness:
  "inj (\<lambda>a::nat. a + 10) \<and>
   (\<forall>a. shifted_heap (a + 10) = map_node (\<lambda>a. a + 10) (file_heap a)) \<and>
   parse folder_env ''d/b.go'' = Inr (file_heap, 0) \<and>
   processFile (folder_env\<lparr>parse := \<lambda>q. Inr (shifted_heap, 0 + 10)\<rparr>) 3 ''d/b.go'' empty_world =
     processFile folder_env 3 ''d/b.go'' empty_world"
proof -
  have 1: "inj (\<lambda>a::nat. a + 10)" by (simp add: inj_def)
  have 2: "\<forall>a. shifted_heap (a + 10) = map_node (\<lambda>a. a + 10) (file_heap a)"
    by (simp add: shifted_heap_def)
  have 3: "parse folder_env ''d/b.go'' = Inr (file_heap, 0)"
    by (simp add: folder_env_def)
  from processFile_deterministic [OF 1 2 3] 1 2 3 show ?thesis by simp
qed

subsection \<open>C7: the type field and the omitted fields\<close>

text \<open>
  C7. Every record \<^verbatim>\<open>marshalAST\<close> returns has \<^verbatim>\<open>type\<close> set to the name of the node's
  kind, which is never empty. In the document, the object of a record always has
  \<^verbatim>\<open>type\<close>, and has \<^verbatim>\<open>name\<close>, \<^verbatim>\<open>value\<close>, \<^verbatim>\<open>children\<close>, \<^verbatim>\<open>comments\<close> exactly when the field is
  not empty: a non-empty string, a non-nil value, a non-empty list. Nowhere in the
  document is there a \<^verbatim>\<open>null\<close> or an empty array, in nested records either. (\<^verbatim>\<open>Value\<close> is
  an interface, empty when nil; a value that is set is emitted with its text.)
\<close>

theorem type_populated_and_omitempty:
  assumes "marshalAST k h (Some a) V = Returns (Some t, V')"
  shows "Type t = type_name (h a) \<and> Type t \<noteq> [] \<and>
         ''type'' \<in> set (object_keys (encode t)) \<and>
         (''name'' \<in> set (object_keys (encode t)) \<longleftrightarrow> Name t \<noteq> []) \<and>
         (''value'' \<in> set (object_keys (encode t)) \<longleftrightarrow> Value t \<noteq> None) \<and>
         (''children'' \<in> set (object_keys (encode t)) \<longleftrightarrow> Children t \<noteq> []) \<and>
         (''comments'' \<in> set (object_keys (encode t)) \<longleftrightarrow> Comments t \<noteq> []) \<and>
         no_placeholder (encode t)"
proof -
  from assms obtain b where "Some a = Some b" and "Type t = type_name (h b)"
    by (rule marshalAST_Some)
  then have ty: "Type t = type_name (h a)" by simp
  have k: "''type'' \<in> set (object_keys (encode t)) \<and>
         (''name'' \<in> set (object_keys (encode t)) \<longleftrightarrow> Name t \<noteq> []) \<and>
         (''value'' \<in> set (object_keys (encode t)) \<longleftrightarrow> Value t \<noteq> None) \<and>
         (''children'' \<in> set (object_keys (encode t)) \<longleftrightarrow> Children t \<noteq> []) \<and>
         (''comments'' \<in> set (object_keys (encode t)) \<longleftrightarrow> Comments t \<noteq> [])"
    by (cases t; cases "Value t") (auto simp: object_keys_def)
  from ty k type_name_nonempty [of "h a"] no_placeholder_encode [of t] show ?thesis by simp
qed

theorem type_populated_and_omitempty_witness:
  "marshalAST 3 file_heap (Some 0) {} =
     Returns (Some (ASTNode [] ''*ast.File'' [ASTNode [] ''*ast.Ident'' [] (Some ''main'') []]
                      (Some ''main'') []), {0, 1}) \<and>
   object_keys (encode (ASTNode [] ''*ast.File'' [ASTNode [] ''*ast.Ident'' [] (Some ''main'') []]
                      (Some ''main'') [])) = [''type'', ''children'', ''value''] \<and>
   no_placeholder (encode (ASTNode [] ''*ast.File'' [ASTNode [] ''*ast.Ident'' [] (Some ''main'') []]
                      (Some ''main'') []))"
proof -
  have m: "marshalAST 3 file_heap (Some 0) {} =
     Returns (Some (ASTNode [] ''*ast.File'' [ASTNode [] ''*ast.Ident'' [] (Some ''main'') []]
                      (Some ''main'') []), {0, 1})"
    by (simp add: eval_nat_numeral file_heap_def opt_def call_append_def
        switch_fields_def ident_name_def insert_commute)
  from type_populated_and_omitempty [OF m] m show ?thesis by (simp add: object_keys_def)
qed

subsection \<open>C8: the first failure ends the walk\<close>

text \<open>
  C8. In a directory run, when the units before one have been processed without error
  and that one fails, \<^verbatim>\<open>processFolder\<close> returns that failure, wrapped with the folder's
  path, and the world is as the failing unit left it: whatever follows in the walk is
  not processed.
\<close>

theorem first_failure_aborts_walk:
  assumes "filepath_Walk (walk_fn env fuel) pre w = (Returns None, w1)"
    and "walk_fn env fuel e w1 = (Returns (Some err), w2)"
  shows "processFolder env fuel folderPath (pre @ e # post) w =
           (Returns (Some (''error processing folder '' @ folderPath @ '': '' @ err)), w2)"
  using assms by (simp add: processFolder_def filepath_Walk_append)

text \<open>In the folder \<^verbatim>\<open>d\<close>, \<^verbatim>\<open>a.go\<close> fails to parse and \<^verbatim>\<open>b.go\<close> is never written.\<close>

theorem first_failure_aborts_walk_witness:
  "filepath_Walk (walk_fn folder_env 3) [folder_entries ! 0] empty_world = (Returns None, empty_world) \<and>
   walk_fn folder_env 3 (folder_entries ! 1) empty_world =
     (Returns (Some ''error parsing Go source file d/a.go: expected declaration''), empty_world) \<and>
   processFolder folder_env 3 ''d'' folder_entries empty_world =
     (Returns (Some ''error processing folder d: error parsing Go source file d/a.go: expected declaration''),
      empty_world)"
proof -
  have 1: "filepath_Walk (walk_fn folder_env 3) [folder_entries ! 0] empty_world = (Returns None, empty_world)"
    by (simp add: folder_entries_def walk_fn_def)
  have 2: "walk_fn folder_env 3 (folder_entries ! 1) empty_world =
     (Returns (Some ''error parsing Go source file d/a.go: expected declaration''), empty_world)"
    by (simp add: folder_entries_def walk_fn_def has_suffix_def processFile_def folder_env_def)
  have 3: "folder_entries = [folder_entries ! 0] @ folder_entries ! 1 # [folder_entries ! 2]"
    by (simp add: folder_entries_def)
  from first_failure_aborts_walk [OF 1 2, of "''d''" "[folder_entries ! 2]"] 1 2 3
  show ?thesis by simp
qed

subsection \<open>C9: which kinds carry a value\<close>

text \<open>
  C9, as stated, fails: \<^verbatim>\<open>value\<close> is not confined to literal and identifier leaves. The
  case of \<^verbatim>\<open>*ast.File\<close> assigns the package name to \<^verbatim>\<open>Value\<close>, and a file is no leaf.
\<close>

theorem value_present_counterexample:
  "marshalAST 3 file_heap (Some 0) {} =
     Returns (Some (ASTNode [] ''*ast.File'' [ASTNode [] ''*ast.Ident'' [] (Some ''main'') []]
                      (Some ''main'') []), {0, 1})
   \<and> \<not> literal_leaf (file_heap 0)"
  by (simp add: eval_nat_numeral file_heap_def opt_def call_append_def
      switch_fields_def ident_name_def literal_leaf_def insert_commute)

text \<open>
  C9, amended. The record of a node has a \<^verbatim>\<open>value\<close> exactly when the node is an
  identifier, a basic literal, or a file (whose value is the name of its package);
  for every other kind \<^verbatim>\<open>value\<close> is absent.
\<close>

theorem value_present_iff:
  assumes "marshalAST k h (Some a) V = Returns (Some t, V')"
  shows "Value t \<noteq> None \<longleftrightarrow> carries_value (h a)"
proof -
  from assms obtain b where "Some a = Some b"
    and "switch_fields h (h b) = Returns (Name t, Value t, Comments t)"
    by (rule marshalAST_Some)
  then have "switch_fields h (h a) = Returns (Name t, Value t, Comments t)" by simp
  then show ?thesis by (rule switch_fields_value)
qed

theorem value_present_iff_witness:
  "marshalAST 2 file_heap (Some 1) {} = Returns (Some (ASTNode [] ''*ast.Ident'' [] (Some ''main'') []), {1}) \<and>
   (Value (ASTNode [] ''*ast.Ident'' [] (Some ''main'') []) \<noteq> None \<longleftrightarrow> carries_value (file_heap 1))"
proof -
  have m: "marshalAST 2 file_heap (Some 1) {} =
      Returns (Some (ASTNode [] ''*ast.Ident'' [] (Some ''main'') []), {1})"
    by (simp add: eval_nat_numeral file_heap_def switch_fields_def call_append_def)
  from value_present_iff [OF m] m show ?thesis by simp
qed

subsection \<open>C10: nil and visited nodes\<close>

text \<open>
  C10. Called on nil, or on a node whose identity is in the visited set, \<^verbatim>\<open>marshalAST\<close>
  returns nil without a panic and leaves the set unchanged, and the caller appends
  nothing to its children.
\<close>

theorem marshalAST_nil_or_visited:
  assumes "r = None \<or> (\<exists>a. r = Some a \<and> a \<in> V)"
  shows "marshalAST (Suc k) h r V = Returns (None, V) \<and>
         call_append (marshalAST (Suc k) h) r (cs, V) = Returns (cs, V)"
  using assms by (auto simp: call_append_def)

theorem marshalAST_nil_or_visited_witness:
  "(Some (0::nat) = None \<or> (\<exists>a. Some (0::nat) = Some a \<and> a \<in> {0})) \<and>
   marshalAST (Suc 0) shared_heap (Some 0) {0} = Returns (None, {0}) \<and>
   call_append (marshalAST (Suc 0) shared_heap) (Some 0) ([], {0}) = Returns ([], {0})"
proof -
  have 1: "Some (0::nat) = None \<or> (\<exists>a. Some (0::nat) = Some a \<and> a \<in> {0})" by simp
  from marshalAST_nil_or_visited [OF 1, of 0 shared_heap "[]"] 1 show ?thesis by simp
qed

end
